theory Spec2Isabelle
  imports Main "HOL-Library.Sublist"
begin

section \<open>Strings\<close>

text \<open>
  Python strings are modelled as \<open>string\<close> (lists of characters). The two control
  characters the program names, line feed and carriage return, get their own names.
\<close>

abbreviation NL :: char where "NL \<equiv> CHR 0x0A"
abbreviation CR :: char where "CR \<equiv> CHR 0x0D"

text \<open>
  Errors of the program are values. Each constructor stands for one family of Python
  exceptions that a step of \<open>methods.py\<close> can raise.
\<close>

datatype error =
    ValueError
  | AttributeError
  | APIError
  | Base64Error
  | UnicodeError
  | OSError
  | TarError
  | KeyError

text \<open>
  \<open>str.replace(old, new)\<close>: every occurrence of \<open>old\<close>, found from the left and
  without overlap, is replaced by \<open>new\<close>. With an empty \<open>old\<close> Python puts \<open>new\<close>
  before every character and at the end.
\<close>

fun replace_all :: "string \<Rightarrow> string \<Rightarrow> string \<Rightarrow> string" where
  "replace_all old new [] = []"
| "replace_all old new (c # cs) =
     (if old \<noteq> [] \<and> prefix old (c # cs)
      then new @ replace_all old new (drop (length old) (c # cs))
      else c # replace_all old new cs)"

definition str_replace :: "string \<Rightarrow> string \<Rightarrow> string \<Rightarrow> string" where
  "str_replace old new s =
     (if old = [] then new @ concat (map (\<lambda>c. c # new) s) else replace_all old new s)"

text \<open>
  \<open>str.split(sep)\<close>: the pieces between the occurrences of \<open>sep\<close>, found from the
  left and without overlap. A text with n occurrences has n + 1 pieces, so the result is
  never empty. An empty separator raises \<open>ValueError\<close>.
\<close>

fun split_from :: "string \<Rightarrow> string \<Rightarrow> string list" where
  "split_from sep [] = [[]]"
| "split_from sep (c # cs) =
     (if sep \<noteq> [] \<and> prefix sep (c # cs)
      then [] # split_from sep (drop (length sep) (c # cs))
      else (case split_from sep cs of
              [] \<Rightarrow> [[c]]
            | piece # pieces \<Rightarrow> (c # piece) # pieces))"

definition str_split :: "string \<Rightarrow> string \<Rightarrow> error + string list" where
  "str_split sep s = (if sep = [] then Inl ValueError else Inr (split_from sep s))"

text \<open>\<open>occurs sep s\<close>: the text \<open>sep\<close> stands somewhere in \<open>s\<close>.\<close>

fun occurs :: "string \<Rightarrow> string \<Rightarrow> bool" where
  "occurs sep [] = (sep = [])"
| "occurs sep (c # cs) = (prefix sep (c # cs) \<or> occurs sep cs)"

section \<open>The output parser\<close>

text \<open>
  \<open>re.match(r"^\[([^\]]*)\] (.*)$", line)\<close> followed by \<open>match.groups()\<close>: the line
  starts with an opening bracket; the key is the run of characters up to the first
  closing bracket, which a space must follow; the value is the rest of the line. The dot
  does not match a line feed and \<open>$\<close> matches at the end of the text or before a line feed
  that ends it, so a rest with a line feed anywhere else does not match.
\<close>

definition match_line :: "string \<Rightarrow> (string \<times> string) option" where
  "match_line line =
     (case line of
        [] \<Rightarrow> None
      | c # rest \<Rightarrow>
          if c \<noteq> CHR ''['' then None
          else (case dropWhile (\<lambda>x. x \<noteq> CHR '']'') rest of
                  closing # c2 # text \<Rightarrow>
                    if c2 \<noteq> CHR '' '' then None
                    else if dropWhile (\<lambda>x. x \<noteq> NL) text = []
                          \<or> dropWhile (\<lambda>x. x \<noteq> NL) text = [NL]
                    then Some (takeWhile (\<lambda>x. x \<noteq> CHR '']'') rest,
                               takeWhile (\<lambda>x. x \<noteq> NL) text)
                    else None
                | _ \<Rightarrow> None))"

text \<open>
  A command record is the \<open>defaultdict(list)\<close> of the source, kept as an association
  list in the order in which the keys were first inserted (the order a Python dict
  keeps). \<open>dict_append d k v\<close> is \<open>d[k].append(v)\<close>.
\<close>

type_synonym command_record = "(string \<times> string list) list"

fun dict_append :: "command_record \<Rightarrow> string \<Rightarrow> string \<Rightarrow> command_record" where
  "dict_append [] k v = [(k, [v])]"
| "dict_append ((k', vs) # d) k v =
     (if k' = k then (k', vs @ [v]) # d else (k', vs) # dict_append d k v)"

text \<open>The body of the inner loop: one line of a block, added to the block's record.\<close>

definition add_line :: "command_record \<Rightarrow> string \<Rightarrow> command_record" where
  "add_line command line =
     (case match_line line of
        None \<Rightarrow> command
      | Some (key, val) \<Rightarrow> dict_append command key val)"

text \<open>
  \<open>any(command)\<close> iterates over the keys of the dict and asks for a truthy one: a key
  that is not the empty string.
\<close>

definition any_key :: "command_record \<Rightarrow> bool" where
  "any_key command = list_ex (\<lambda>(k, vs). k \<noteq> []) command"

text \<open>The outer loop of \<open>parse_output\<close>, over the blocks, with the list \<open>commands\<close>.\<close>

fun parse_blocks :: "command_record list \<Rightarrow> string list \<Rightarrow> error + command_record list" where
  "parse_blocks commands [] = Inr commands"
| "parse_blocks commands (command_text # rest) =
     (case str_split [NL] command_text of
        Inl e \<Rightarrow> Inl e
      | Inr lines \<Rightarrow>
          (let command = foldl add_line [] lines
           in parse_blocks (if any_key command then commands @ [command] else commands) rest))"

text \<open>The divider between blocks: three dashes and a line feed.\<close>

definition DIVIDER :: string where
  "DIVIDER = [CHR ''-'', CHR ''-'', CHR ''-'', NL]"

text \<open>The blocks the outer loop runs over: line 88 of the source.\<close>

definition blocks_of :: "string \<Rightarrow> error + string list" where
  "blocks_of output = str_split DIVIDER (str_replace [CR, NL] [NL] output)"

definition parse_output :: "string \<Rightarrow> error + command_record list" where
  "parse_output output =
     (case blocks_of output of
        Inl e \<Rightarrow> Inl e
      | Inr blocks \<Rightarrow> parse_blocks [] blocks)"

section \<open>The container runtime and the libraries\<close>

text \<open>
  The program drives a Docker host through \<open>docker.APIClient\<close> and uses the Python
  libraries \<open>base64\<close>, \<open>tarfile\<close> and \<open>fnmatch\<close>. None of them is code of the
  repository. A call of the runtime is recorded as a value of type \<open>call\<close>, in the order
  in which the program makes it; what the host and the libraries answer is a parameter,
  the record \<open>world\<close>.
\<close>

type_synonym bytes = string
type_synonym container = string

datatype call =
    NewClient
  | CreateContainer string bool
  | PutArchive container string bytes
  | Start container
  | AttachSocket container
  | Write string
  | CloseSocket
  | Wait container
  | Logs container
  | GetArchive container string
  | RemoveContainer container

text \<open>
  A member of a tar archive as \<open>getmembers\<close> lists it (a \<open>TarInfo\<close>): its name (the
  path inside the archive) and the rest of its header.
\<close>

record tar_member =
  member_name :: string
  member_header :: bytes

text \<open>
  \<open>fails w tr c\<close> is the error with which call \<open>c\<close> raises after the calls \<open>tr\<close>, if
  it raises. \<open>logs_of\<close> and \<open>archive_of\<close> are the bytes the host returns for the logs
  and, in chunks, for an archive. The other fields are the library functions:
  \<open>b64decode\<close>, \<open>b64encode\<close>, \<open>bytes.decode\<close>, reading the members of a tar
  archive, \<open>extractfile\<close> for a member of an archive, writing an archive of given
  members with their contents, and the characters a bracket expression of a shell
  pattern accepts, given the text between its brackets. \<open>extractfile\<close> gives the
  content of a member, no content for a member that is neither a file nor a link, and
  raises for a link whose target is not in the archive.
\<close>

record world =
  fails :: "call list \<Rightarrow> call \<Rightarrow> error option"
  new_container :: container
  logs_of :: "call list \<Rightarrow> bytes"
  archive_of :: "call list \<Rightarrow> bytes list"
  b64decode :: "string \<Rightarrow> error + bytes"
  b64encode :: "bytes \<Rightarrow> string"
  utf8_decode :: "bytes \<Rightarrow> error + string"
  tar_members :: "bytes \<Rightarrow> error + tar_member list"
  extractfile :: "bytes \<Rightarrow> tar_member \<Rightarrow> error + bytes option"
  tar_bytes :: "(tar_member \<times> bytes option) list \<Rightarrow> bytes"
  bracket_class :: "string \<Rightarrow> char \<Rightarrow> bool"

text \<open>
  A step of the program takes the calls made so far and returns its result, or the
  error it raised, with the calls made by then. \<open>and_then\<close> runs a second step after a
  first unless the first raised: an exception ends the function, no handler exists in
  the source.
\<close>

type_synonym 'a action = "call list \<Rightarrow> (error + 'a) \<times> call list"

definition call_api :: "world \<Rightarrow> call \<Rightarrow> unit action" where
  "call_api w c tr =
     (case fails w tr c of
        Some e \<Rightarrow> (Inl e, tr @ [c])
      | None \<Rightarrow> (Inr (), tr @ [c]))"

definition and_then :: "'a action \<Rightarrow> ('a \<Rightarrow> 'b action) \<Rightarrow> 'b action" where
  "and_then m f tr =
     (case m tr of
        (Inl e, tr') \<Rightarrow> (Inl e, tr')
      | (Inr x, tr') \<Rightarrow> f x tr')"

definition from_result :: "error + 'a \<Rightarrow> 'a action" where
  "from_result r tr = (r, tr)"

section \<open>Shell patterns\<close>

text \<open>
  \<open>os.path.join(a, b)\<close> on a POSIX host: an absolute \<open>b\<close> replaces \<open>a\<close>; otherwise
  the two are joined with one slash, which is left out when \<open>a\<close> is empty or ends with
  one.
\<close>

definition path_join :: "string \<Rightarrow> string \<Rightarrow> string" where
  "path_join a b =
     (if prefix ''/'' b then b
      else if a = [] \<or> suffix ''/'' a then a @ b
      else a @ ''/'' @ b)"

text \<open>
  \<open>fnmatch.translate\<close> of CPython 3.11 reads a pattern from the left into pieces: a star
  (a run of stars is one star), a question mark, a bracket expression, or a character
  that stands for itself. \<open>bracket_body\<close> finds the end of a bracket expression as the
  library does: after an optional \<open>!\<close> and an optional closing bracket, the next
  closing bracket ends it; with none, the opening bracket stands for itself.
\<close>

datatype glob_token = STAR | ANY | LIT char | CLASS string

definition bracket_body :: "string \<Rightarrow> (string \<times> string) option" where
  "bracket_body rest =
     (let j0 = (if 0 < length rest \<and> rest ! 0 = CHR ''!'' then 1 else 0);
          j1 = (if j0 < length rest \<and> rest ! j0 = CHR '']'' then j0 + 1 else j0);
          j = j1 + length (takeWhile (\<lambda>x. x \<noteq> CHR '']'') (drop j1 rest))
      in if length rest \<le> j then None else Some (take j rest, drop (Suc j) rest))"

function translate_from :: "glob_token list \<Rightarrow> string \<Rightarrow> glob_token list" where
  "translate_from res [] = res"
| "translate_from res (c # rest) =
     (if c = CHR ''*''
      then translate_from (if res \<noteq> [] \<and> last res = STAR then res else res @ [STAR]) rest
      else if c = CHR ''?'' then translate_from (res @ [ANY]) rest
      else if c = CHR ''[''
      then (case bracket_body rest of
              None \<Rightarrow> translate_from (res @ [LIT c]) rest
            | Some (stuff, rest') \<Rightarrow> translate_from (res @ [CLASS stuff]) rest')
      else translate_from (res @ [LIT c]) rest)"
  by pat_completeness auto
termination
  by (relation "measure (\<lambda>(res, pat). length pat)")
     (auto simp: bracket_body_def Let_def split: if_splits)

text \<open>
  The regular expression the library builds from the pieces is matched against the
  whole name, in the mode in which a dot matches every character: a star is any run of
  characters, a question mark any one character, with no character set apart.
\<close>

fun glob_match :: "(string \<Rightarrow> char \<Rightarrow> bool) \<Rightarrow> glob_token list \<Rightarrow> string \<Rightarrow> bool" where
  "glob_match cls [] s = (s = [])"
| "glob_match cls (STAR # ts) [] = glob_match cls ts []"
| "glob_match cls (STAR # ts) (c # cs) =
     (glob_match cls ts (c # cs) \<or> glob_match cls (STAR # ts) cs)"
| "glob_match cls (ANY # ts) [] = False"
| "glob_match cls (ANY # ts) (c # cs) = glob_match cls ts cs"
| "glob_match cls (LIT x # ts) [] = False"
| "glob_match cls (LIT x # ts) (c # cs) = (c = x \<and> glob_match cls ts cs)"
| "glob_match cls (CLASS stuff # ts) [] = False"
| "glob_match cls (CLASS stuff # ts) (c # cs) = (cls stuff c \<and> glob_match cls ts cs)"

text \<open>
  \<open>fnmatch.fnmatch(name, pat)\<close> on a POSIX host, where \<open>os.path.normcase\<close> changes
  neither argument.
\<close>

definition fnmatch :: "world \<Rightarrow> string \<Rightarrow> string \<Rightarrow> bool" where
  "fnmatch w name pat = glob_match (bracket_class w) (translate_from [] pat) name"

section \<open>The operations of the program\<close>

definition IMAGE :: string where
  "IMAGE = ''zenoscave/tunnel-runner:latest''"

definition SRC_ROOT :: string where
  "SRC_ROOT = ''/app/src''"

definition create_container :: "world \<Rightarrow> container action" where
  "create_container w =
     and_then (call_api w (CreateContainer IMAGE True)) (\<lambda>_.
     from_result (Inr (new_container w)))"

text \<open>The loop of \<open>eval_commands\<close> that writes the commands to the socket.\<close>

definition command_line :: "string \<Rightarrow> string" where
  "command_line cmd = str_replace [NL] '' ; '' cmd @ [NL]"

fun write_commands :: "world \<Rightarrow> string list \<Rightarrow> unit action" where
  "write_commands w [] tr = (Inr (), tr)"
| "write_commands w (cmd # cmds) tr =
     (case call_api w (Write (command_line cmd)) tr of
        (Inl e, tr') \<Rightarrow> (Inl e, tr')
      | (Inr u, tr') \<Rightarrow> write_commands w cmds tr')"

text \<open>
  \<open>if source_base64:\<close> holds for a source that is present and not the empty string.
\<close>

definition put_source :: "world \<Rightarrow> container \<Rightarrow> string option \<Rightarrow> unit action" where
  "put_source w container source_base64 =
     (case source_base64 of
        None \<Rightarrow> from_result (Inr ())
      | Some s \<Rightarrow>
          if s = [] then from_result (Inr ())
          else and_then (from_result (b64decode w s)) (\<lambda>tar_stream.
               call_api w (PutArchive container SRC_ROOT tar_stream)))"

definition eval_commands ::
  "world \<Rightarrow> container \<Rightarrow> string list \<Rightarrow> string option \<Rightarrow> string action" where
  "eval_commands w container commands source_base64 =
     and_then (put_source w container source_base64) (\<lambda>_.
     and_then (call_api w (Start container)) (\<lambda>_.
     and_then (call_api w (AttachSocket container)) (\<lambda>_.
     and_then (write_commands w (commands @ [''exit''])) (\<lambda>_.
     and_then (call_api w CloseSocket) (\<lambda>_.
     and_then (call_api w (Wait container)) (\<lambda>_.
     and_then (call_api w (Logs container)) (\<lambda>_ tr.
     from_result (utf8_decode w (logs_of w tr)) tr)))))))"

text \<open>
  The distribution config and the request are dicts read with \<open>get\<close> and a default; a
  key that is missing is \<open>None\<close> here.
\<close>

record dist_config =
  dist_base_path :: "string option"
  dist_artifacts :: "string list option"

record request =
  req_source :: "string option"
  req_commands :: "string list option"
  req_dist :: "dist_config option"

record response =
  resp_results :: "command_record list"
  resp_output :: "string option"

text \<open>The members of the archive that \<open>retrieve_archive_base64\<close> keeps (lines 127 to 134).\<close>

definition selected :: "world \<Rightarrow> string \<Rightarrow> string list \<Rightarrow> tar_member \<Rightarrow> bool" where
  "selected w base artifacts member =
     list_ex (\<lambda>artifact. fnmatch w (member_name member) (path_join base artifact)) artifacts"

text \<open>
  The list comprehension of lines 127 to 134: the members are visited in the order of
  the archive, and for each selected member \<open>tar_stream.extractfile(member)\<close> is
  called; the first call that raises ends the function with its error. A member that
  is not selected is not extracted.
\<close>

fun extract_members ::
  "world \<Rightarrow> bytes \<Rightarrow> string \<Rightarrow> string list \<Rightarrow> tar_member list
     \<Rightarrow> error + (tar_member \<times> bytes option) list" where
  "extract_members w in_obj base artifacts [] = Inr []"
| "extract_members w in_obj base artifacts (member # rest) =
     (if selected w base artifacts member
      then (case extractfile w in_obj member of
              Inl e \<Rightarrow> Inl e
            | Inr data \<Rightarrow>
                (case extract_members w in_obj base artifacts rest of
                   Inl e \<Rightarrow> Inl e
                 | Inr members \<Rightarrow> Inr ((member, data) # members)))
      else extract_members w in_obj base artifacts rest)"

definition retrieve_archive_base64 ::
  "world \<Rightarrow> container \<Rightarrow> dist_config \<Rightarrow> string option action" where
  "retrieve_archive_base64 w container distribution_config =
     (let base = (case dist_base_path distribution_config of None \<Rightarrow> [] | Some b \<Rightarrow> b);
          artifacts = (case dist_artifacts distribution_config of None \<Rightarrow> [] | Some a \<Rightarrow> a)
      in if artifacts = [] then from_result (Inr None)
         else and_then (call_api w (GetArchive container (path_join SRC_ROOT base))) (\<lambda>_ tr.
              and_then (from_result (tar_members w (foldl (@) [] (archive_of w tr)))) (\<lambda>ms.
              and_then (from_result
                          (extract_members w (foldl (@) [] (archive_of w tr)) base artifacts ms))
                (\<lambda>members.
              from_result (Inr (Some (b64encode w (tar_bytes w members))))))
              tr))"

text \<open>
  \<open>run(request=None)\<close>: with no request, \<open>request.get\<close> raises once the container
  exists.
\<close>

definition run :: "world \<Rightarrow> request option \<Rightarrow> response action" where
  "run w request =
     and_then (call_api w NewClient) (\<lambda>_.
     and_then (create_container w) (\<lambda>container.
       case request of
         None \<Rightarrow> from_result (Inl AttributeError)
       | Some req \<Rightarrow>
           and_then (eval_commands w container
                       (case req_commands req of None \<Rightarrow> [] | Some cs \<Rightarrow> cs)
                       (req_source req)) (\<lambda>lines.
           and_then (from_result (parse_output lines)) (\<lambda>results.
           and_then (retrieve_archive_base64 w container
                       (case req_dist req of
                          None \<Rightarrow> \<lparr>dist_base_path = None, dist_artifacts = None\<rparr>
                        | Some d \<Rightarrow> d)) (\<lambda>output_tarball.
           and_then (call_api w (RemoveContainer container)) (\<lambda>_.
           from_result (Inr \<lparr>resp_results = results, resp_output = output_tarball\<rparr>)))))))"

section \<open>Traces\<close>

text \<open>
  \<open>follows m expected\<close>: from any point, step \<open>m\<close> makes the calls \<open>expected\<close> in this
  order, all of them when it returns, the first few when it raises.
\<close>

definition follows :: "'a action \<Rightarrow> call list \<Rightarrow> bool" where
  "follows m expected =
     (\<forall>tr. \<exists>es. snd (m tr) = tr @ es \<and> prefix es expected
              \<and> ((\<exists>x. fst (m tr) = Inr x) \<longrightarrow> es = expected))"

text \<open>The texts written to the socket, in the order of the writes.\<close>

fun written :: "call list \<Rightarrow> string list" where
  "written [] = []"
| "written (Write text # cs) = text # written cs"
| "written (c # cs) = written cs"

text \<open>
  The container \<open>c\<close> was destroyed: some call of \<open>remove_container\<close> for it did not
  raise.
\<close>

definition destroyed :: "world \<Rightarrow> call list \<Rightarrow> container \<Rightarrow> bool" where
  "destroyed w tr c =
     list_ex (\<lambda>i. tr ! i = RemoveContainer c \<and> fails w (take i tr) (RemoveContainer c) = None)
       [0..<length tr]"

text \<open>The calls of \<open>eval_commands\<close> when nothing raises: first those for the source.\<close>

definition source_calls :: "world \<Rightarrow> container \<Rightarrow> string option \<Rightarrow> call list" where
  "source_calls w container source_base64 =
     (case source_base64 of
        None \<Rightarrow> []
      | Some s \<Rightarrow>
          if s = [] then []
          else (case b64decode w s of
                  Inl e \<Rightarrow> []
                | Inr tar_stream \<Rightarrow> [PutArchive container SRC_ROOT tar_stream]))"

definition eval_calls :: "world \<Rightarrow> container \<Rightarrow> string list \<Rightarrow> string option \<Rightarrow> call list" where
  "eval_calls w container commands source_base64 =
     source_calls w container source_base64
     @ [Start container, AttachSocket container]
     @ map (\<lambda>cmd. Write (command_line cmd)) (commands @ [''exit''])
     @ [CloseSocket, Wait container, Logs container]"

text \<open>
  A world for the examples: no call raises, the codecs are the identity, an archive is
  the list of its member names, each closed by a semicolon, and no member has content.
\<close>

definition quiet_world :: world where
  "quiet_world =
     \<lparr>fails = (\<lambda>tr c. None),
      new_container = ''c1'',
      logs_of = (\<lambda>tr. ''[out] a\<newline>[out] b\<newline>''),
      archive_of = (\<lambda>tr. [''build/a.txt;'', ''build/b.log;build/sub/c.txt'']),
      b64decode = (\<lambda>s. Inr s),
      b64encode = (\<lambda>b. b),
      utf8_decode = (\<lambda>b. Inr b),
      tar_members = (\<lambda>b. Inr (map (\<lambda>n. \<lparr>member_name = n, member_header = []\<rparr>)
                                 (split_from '';'' b))),
      extractfile = (\<lambda>b m. Inr None),
      tar_bytes = (\<lambda>ms. concat (map (\<lambda>(m, data). member_name m @ '';'') ms)),
      bracket_class = (\<lambda>stuff c. c \<in> set stuff)\<rparr>"

text \<open>The calls of \<open>retrieve_archive_base64\<close> when nothing raises.\<close>

definition retrieve_calls :: "container \<Rightarrow> dist_config \<Rightarrow> call list" where
  "retrieve_calls container distribution_config =
     (case dist_artifacts distribution_config of
        None \<Rightarrow> []
      | Some artifacts \<Rightarrow>
          if artifacts = [] then []
          else [GetArchive container
                  (path_join SRC_ROOT
                     (case dist_base_path distribution_config of None \<Rightarrow> [] | Some b \<Rightarrow> b))])"

text \<open>The quiet world, but reading the logs of the container raises.\<close>

definition logs_fail_world :: world where
  "logs_fail_world =
     quiet_world\<lparr>fails := (\<lambda>tr c. if c = Logs ''c1'' then Some APIError else None)\<rparr>"

text \<open>A text with none of the characters a shell pattern reads as special.\<close>

definition literal :: "string \<Rightarrow> bool" where
  "literal p = list_all (\<lambda>ch. ch \<noteq> CHR ''*'' \<and> ch \<noteq> CHR ''?'' \<and> ch \<noteq> CHR ''['') p"

text \<open>The members that the quiet world reads from its archive.\<close>

definition three_members :: "tar_member list" where
  "three_members =
     [\<lparr>member_name = ''build/a.txt'', member_header = []\<rparr>,
      \<lparr>member_name = ''build/b.log'', member_header = []\<rparr>,
      \<lparr>member_name = ''build/sub/c.txt'', member_header = []\<rparr>]"

text \<open>
  The quiet world, but the member \<open>build/sub/c.txt\<close> is a link whose target is not in
  the archive: extracting it raises.
\<close>

definition dangling_world :: world where
  "dangling_world =
     quiet_world\<lparr>extractfile :=
       (\<lambda>b m. if member_name m = ''build/sub/c.txt'' then Inl KeyError else Inr None)\<rparr>"

section \<open>Reconstructing a text from records\<close>

text \<open>
  The spec speaks of reconstructing a text from records: each value of a record is
  emitted again as a line \<open>[tag] value\<close>, tag by tag in the order of the record, and a
  divider line is put between the blocks. The source has no such function; these
  definitions follow the spec's words.
\<close>

definition tagged_line :: "string \<Rightarrow> string \<Rightarrow> string" where
  "tagged_line key val = ''['' @ key @ ''] '' @ val"

definition record_lines :: "command_record \<Rightarrow> string list" where
  "record_lines command = concat (map (\<lambda>(key, vals). map (tagged_line key) vals) command)"

text \<open>Lines, each closed by a line feed.\<close>

definition lines_text :: "string list \<Rightarrow> string" where
  "lines_text ls = concat (map (\<lambda>line. line @ [NL]) ls)"

definition record_text :: "command_record \<Rightarrow> string" where
  "record_text command = lines_text (record_lines command)"

fun join_with :: "string \<Rightarrow> string list \<Rightarrow> string" where
  "join_with sep [] = []"
| "join_with sep [x] = x"
| "join_with sep (x # y # ys) = x @ sep @ join_with sep (y # ys)"

definition reconstruct :: "command_record list \<Rightarrow> string" where
  "reconstruct records = join_with DIVIDER (map record_text records)"

text \<open>
  What holds of every record the parser builds: the keys are distinct, no list of
  values is empty, a key has no closing bracket, and neither keys nor values have a line
  feed.
\<close>

definition well_formed :: "command_record \<Rightarrow> bool" where
  "well_formed command =
     (distinct (map fst command)
      \<and> (\<forall>(key, vals) \<in> set command.
            vals \<noteq> [] \<and> CHR '']'' \<notin> set key \<and> NL \<notin> set key \<and> (\<forall>v \<in> set vals. NL \<notin> set v)))"

section \<open>Properties of the output parser\<close>

lemma parse_blocks_eq:
  "parse_blocks commands blocks =
     Inr (commands @ filter any_key (map (\<lambda>text. foldl add_line [] (split_from [NL] text)) blocks))"
  by (induction blocks arbitrary: commands) (simp_all add: str_split_def Let_def)

lemma DIVIDER_nonempty: "DIVIDER \<noteq> []"
  by (simp add: DIVIDER_def)

lemma blocks_of_eq:
  "blocks_of output = Inr (split_from DIVIDER (str_replace [CR, NL] [NL] output))"
  by (simp add: blocks_of_def str_split_def DIVIDER_nonempty)

lemma add_line_unmatched: "match_line line = None \<Longrightarrow> add_line command line = command"
  by (simp add: add_line_def)

lemma foldl_add_line_filter:
  "foldl add_line command lines =
     foldl add_line command (filter (\<lambda>line. match_line line \<noteq> None) lines)"
proof (induction lines arbitrary: command)
  case Nil
  show ?case by simp
next
  case (Cons line lines)
  show ?case
  proof (cases "match_line line")
    case None
    then show ?thesis using Cons.IH by (simp add: add_line_unmatched)
  next
    case (Some kv)
    then show ?thesis using Cons.IH by simp
  qed
qed

text \<open>
  Claim C7. For every input the parser returns a list of records, never an error: the
  records are those of the blocks that have a non-empty key, in block order, and each is
  built from the lines of its block that match the tag pattern alone, so the other lines
  leave no trace.
\<close>

theorem parse_output_total:
  "parse_output output =
     Inr (filter any_key
           (map (\<lambda>text. foldl add_line []
                   (filter (\<lambda>line. match_line line \<noteq> None) (split_from [NL] text)))
              (split_from DIVIDER (str_replace [CR, NL] [NL] output))))"
  by (simp only: parse_output_def blocks_of_eq sum.case parse_blocks_eq append_Nil
        foldl_add_line_filter [symmetric])

lemma map_of_dict_append:
  "map_of (dict_append d k v) =
     (map_of d)(k \<mapsto> (case map_of d k of None \<Rightarrow> [v] | Some vs \<Rightarrow> vs @ [v]))"
  by (induction d k v rule: dict_append.induct) (auto simp: fun_eq_iff)

lemma map_of_foldl_add_line:
  "map_of (foldl add_line d lines) key =
     (let vals = map snd (filter (\<lambda>(k, v). k = key) (List.map_filter match_line lines))
      in case map_of d key of
           None \<Rightarrow> if vals = [] then None else Some vals
         | Some vs \<Rightarrow> Some (vs @ vals))"
proof (induction lines arbitrary: d)
  case Nil
  then show ?case by (simp add: split: option.splits)
next
  case (Cons line lines)
  show ?case
  proof (cases "match_line line")
    case None
    then show ?thesis
      using Cons.IH [of d] by (simp add: add_line_def)
  next
    case (Some kv)
    obtain k v where kv: "kv = (k, v)" by (cases kv)
    show ?thesis
      using Cons.IH [of "dict_append d k v"] Some kv
      by (auto simp: add_line_def map_of_dict_append Let_def
               split: option.splits)
  qed
qed

lemma split_from_no_occurrence:
  "sep \<noteq> [] \<Longrightarrow> \<not> occurs sep s \<Longrightarrow> split_from sep s = [s]"
  by (induction s) auto

lemma not_prefix_DIVIDER_append:
  assumes "\<not> occurs DIVIDER a" and "a \<noteq> []"
  shows "\<not> prefix DIVIDER (a @ DIVIDER @ b)"
proof
  assume p: "prefix DIVIDER (a @ DIVIDER @ b)"
  obtain c1 a1 where a: "a = c1 # a1" using assms(2) by (cases a) auto
  show False
  proof (cases a1)
    case Nil
    with p a show False by (simp add: DIVIDER_def)
  next
    case a1: (Cons c2 a2)
    show False
    proof (cases a2)
      case Nil
      with p a a1 show False by (simp add: DIVIDER_def)
    next
      case a2: (Cons c3 a3)
      show False
      proof (cases a3)
        case Nil
        with p a a1 a2 show False by (simp add: DIVIDER_def)
      next
        case a3: (Cons c4 a4)
        from p a a1 a2 a3 have "prefix DIVIDER a" by (auto simp: DIVIDER_def)
        with assms(1) a show False by simp
      qed
    qed
  qed
qed

lemma split_from_DIVIDER_first:
  "\<not> occurs DIVIDER a \<Longrightarrow> split_from DIVIDER (a @ DIVIDER @ b) = a # split_from DIVIDER b"
proof (induction a)
  case Nil
  then show ?case by (simp add: DIVIDER_def)
next
  case (Cons c cs)
  have "\<not> prefix DIVIDER ((c # cs) @ DIVIDER @ b)"
    using Cons.prems not_prefix_DIVIDER_append by blast
  moreover have "\<not> occurs DIVIDER cs" using Cons.prems by simp
  ultimately show ?case using Cons.IH by simp
qed

text \<open>
  Claim C5. The text of the spec's example parses to exactly two records, the first with
  the two values of tag \<open>out\<close> in the order of their lines. In general, for any lines of
  a block, the values a record holds under a key are the values of the lines matching
  with that key, in the order of the lines; a key no line carries is absent.
\<close>

theorem parse_output_example_order:
  "parse_output ''[out] hello\<newline>[out] world\<newline>---\<newline>[out] done\<newline>''
     = Inr [[(''out'', [''hello'', ''world''])], [(''out'', [''done''])]]
   \<and> (\<forall>lines key.
         map_of (foldl add_line [] lines) key =
           (let vals = map snd (filter (\<lambda>(k, v). k = key) (List.map_filter match_line lines))
            in if vals = [] then None else Some vals))"
proof -
  have "parse_output ''[out] hello\<newline>[out] world\<newline>---\<newline>[out] done\<newline>''
     = Inr [[(''out'', [''hello'', ''world''])], [(''out'', [''done''])]]"
    by code_simp
  then show ?thesis
    by (simp add: map_of_foldl_add_line)
qed

lemma any_key_dict_append:
  "any_key (dict_append d k v) = (any_key d \<or> k \<noteq> [])"
  by (induction d k v rule: dict_append.induct) (auto simp: any_key_def)

lemma any_key_foldl_add_line:
  "any_key (foldl add_line d lines) =
     (any_key d \<or> (\<exists>line \<in> set lines. \<exists>key val. match_line line = Some (key, val) \<and> key \<noteq> []))"
proof (induction lines arbitrary: d)
  case Nil
  show ?case by simp
next
  case (Cons line lines)
  show ?case
  proof (cases "match_line line")
    case None
    then show ?thesis using Cons.IH [of d] by (simp add: add_line_def)
  next
    case (Some kv)
    obtain k v where kv: "kv = (k, v)" by (cases kv)
    show ?thesis
      using Cons.IH [of "dict_append d k v"] Some kv
      by (auto simp: add_line_def any_key_dict_append)
  qed
qed

text \<open>
  Claim C10. A block in which every line that matches the tag pattern carries the empty
  tag adds no record: the result of parsing is the result of the outer loop over the
  other blocks. Retention asks for a key that is not the empty string
  (\<open>any_key\<close>), not for a key.
\<close>

theorem empty_tag_block_dropped:
  assumes "blocks_of output = Inr (before @ [command_text] @ after)"
    and "\<forall>line \<in> set (split_from [NL] command_text).
           \<forall>key val. match_line line = Some (key, val) \<longrightarrow> key = []"
  shows "parse_output output = parse_blocks [] (before @ after)"
proof -
  have "\<not> any_key []"
    by (simp add: any_key_def)
  then have "\<not> any_key (foldl add_line [] (split_from [NL] command_text))"
    using assms(2) by (auto simp: any_key_foldl_add_line)
  then show ?thesis
    using assms(1) by (simp add: parse_output_def parse_blocks_eq)
qed

text \<open>
  The theorem at a text of three blocks whose middle block is the line \<open>[] text\<close>: the
  line matches, with the empty tag, and the block leaves no record.
\<close>

theorem empty_tag_block_dropped_witness:
  "blocks_of ''[a] x\<newline>---\<newline>[] text\<newline>---\<newline>[b] y\<newline>''
     = Inr ([''[a] x\<newline>''] @ [''[] text\<newline>''] @ [''[b] y\<newline>''])
   \<and> match_line ''[] text'' = Some ('''', ''text'')
   \<and> parse_output ''[a] x\<newline>---\<newline>[] text\<newline>---\<newline>[b] y\<newline>''
       = Inr [[(''a'', [''x''])], [(''b'', [''y''])]]"
proof -
  have b: "blocks_of ''[a] x\<newline>---\<newline>[] text\<newline>---\<newline>[b] y\<newline>''
     = Inr ([''[a] x\<newline>''] @ [''[] text\<newline>''] @ [''[b] y\<newline>''])"
    by code_simp
  have m: "match_line ''[] text'' = Some ('''', ''text'')"
    by code_simp
  have l: "split_from [NL] ''[] text\<newline>'' = [''[] text'', '''']"
    by code_simp
  have e: "match_line '''' = None"
    by code_simp
  have h: "\<forall>line \<in> set (split_from [NL] ''[] text\<newline>'').
           \<forall>key val. match_line line = Some (key, val) \<longrightarrow> key = []"
    by (simp add: l m e)
  have r: "parse_blocks [] ([''[a] x\<newline>''] @ [''[b] y\<newline>''])
             = Inr [[(''a'', [''x''])], [(''b'', [''y''])]]"
    by code_simp
  show ?thesis
    using empty_tag_block_dropped [OF b h] b m r by simp
qed

text \<open>
  Claim C1, as amended. The normalized text is cut at every occurrence of the four
  characters \<open>---\<close> and line feed, found from the left: when that text is \<open>a\<close>, the
  divider, \<open>b\<close>, and the divider does not occur in \<open>a\<close>, the first block is \<open>a\<close> and the
  other blocks are those of \<open>b\<close>, whatever \<open>a\<close> ends with; a text in which the divider does
  not occur is one block. The dashes need not start their line.
\<close>

theorem blocks_split_at_divider_text:
  "(\<forall>a b. \<not> occurs DIVIDER a \<and> str_replace [CR, NL] [NL] output = a @ DIVIDER @ b
           \<longrightarrow> blocks_of output = Inr (a # split_from DIVIDER b))
   \<and> (\<not> occurs DIVIDER (str_replace [CR, NL] [NL] output)
           \<longrightarrow> blocks_of output = Inr [str_replace [CR, NL] [NL] output])"
  by (simp add: blocks_of_eq split_from_DIVIDER_first split_from_no_occurrence DIVIDER_nonempty)

text \<open>
  The theorem at the text \<open>[a] x---\<close>, line feed, \<open>[b] y\<close>, line feed: both of its parts,
  at inputs that satisfy their hypotheses.
\<close>

theorem blocks_split_at_divider_text_witness:
  "\<not> occurs DIVIDER ''[a] x''
   \<and> str_replace [CR, NL] [NL] ''[a] x---\<newline>[b] y\<newline>'' = ''[a] x'' @ DIVIDER @ ''[b] y\<newline>''
   \<and> \<not> occurs DIVIDER (str_replace [CR, NL] [NL] ''[b] y\<newline>'')
   \<and> blocks_of ''[a] x---\<newline>[b] y\<newline>'' = Inr [''[a] x'', ''[b] y\<newline>'']
   \<and> blocks_of ''[b] y\<newline>'' = Inr [''[b] y\<newline>'']"
proof -
  have o: "\<not> occurs DIVIDER ''[a] x''" by code_simp
  have n: "str_replace [CR, NL] [NL] ''[a] x---\<newline>[b] y\<newline>''
             = ''[a] x'' @ DIVIDER @ ''[b] y\<newline>''" by code_simp
  have n2: "str_replace [CR, NL] [NL] ''[b] y\<newline>'' = ''[b] y\<newline>''" by code_simp
  have o2: "\<not> occurs DIVIDER (str_replace [CR, NL] [NL] ''[b] y\<newline>'')" by code_simp
  have s: "split_from DIVIDER ''[b] y\<newline>'' = [''[b] y\<newline>'']" by code_simp
  from blocks_split_at_divider_text [of "''[a] x---\<newline>[b] y\<newline>''"] o n
  have 1: "blocks_of ''[a] x---\<newline>[b] y\<newline>'' = Inr (''[a] x'' # split_from DIVIDER ''[b] y\<newline>'')"
    by blast
  from blocks_split_at_divider_text [of "''[b] y\<newline>''"] o2 n2
  have 2: "blocks_of ''[b] y\<newline>'' = Inr [''[b] y\<newline>'']"
    by simp
  show ?thesis using o n o2 1 2 s by simp
qed

text \<open>
  Claim C1 as stated fails: no line of this text is the three dashes, its first line only
  ends with them, and the parser cuts the text there into two blocks and returns two
  records.
\<close>

theorem divider_line_only_counterexample:
  "''---'' \<notin> set (split_from [NL] (str_replace [CR, NL] [NL] ''[a] x---\<newline>[b] y\<newline>''))
   \<and> blocks_of ''[a] x---\<newline>[b] y\<newline>'' = Inr [''[a] x'', ''[b] y\<newline>'']
   \<and> parse_output ''[a] x---\<newline>[b] y\<newline>'' = Inr [[(''a'', [''x''])], [(''b'', [''y''])]]"
  by code_simp

section \<open>Properties of the command streamer\<close>

lemma call_api_eq:
  "call_api w c tr = ((case fails w tr c of Some e \<Rightarrow> Inl e | None \<Rightarrow> Inr ()), tr @ [c])"
  by (simp add: call_api_def split: option.splits)

lemma follows_call_api: "follows (call_api w c) [c]"
  by (simp add: follows_def call_api_eq)

lemma follows_from_result: "follows (from_result r) []"
  by (simp add: follows_def from_result_def)

lemma follows_fail: "(\<And>tr. \<exists>e. m tr = (Inl e, tr)) \<Longrightarrow> follows m expected"
  unfolding follows_def
proof
  fix tr
  assume a: "\<And>tr. \<exists>e. m tr = (Inl e, tr)"
  obtain e where "m tr = (Inl e, tr)" using a by blast
  then show "\<exists>es. snd (m tr) = tr @ es \<and> prefix es expected
              \<and> ((\<exists>x. fst (m tr) = Inr x) \<longrightarrow> es = expected)"
    by (intro exI [of _ "[]"]) simp
qed

lemma follows_and_then:
  assumes m: "follows m xs" and f: "\<And>x. follows (f x) ys"
  shows "follows (and_then m f) (xs @ ys)"
  unfolding follows_def
proof
  fix tr
  obtain r tr1 where mt: "m tr = (r, tr1)" by (cases "m tr")
  from m obtain es where es: "tr1 = tr @ es" "prefix es xs" "(\<exists>x. r = Inr x) \<longrightarrow> es = xs"
    unfolding follows_def using mt by (metis fst_conv snd_conv)
  show "\<exists>es. snd (and_then m f tr) = tr @ es \<and> prefix es (xs @ ys)
              \<and> ((\<exists>x. fst (and_then m f tr) = Inr x) \<longrightarrow> es = xs @ ys)"
  proof (cases r)
    case (Inl e)
    then have "and_then m f tr = (Inl e, tr @ es)"
      using mt es(1) by (simp add: and_then_def)
    then show ?thesis
      using es(2) by (intro exI [of _ es]) (simp add: prefix_prefix)
  next
    case (Inr x)
    then have exs: "es = xs" using es(3) by blast
    obtain r2 tr2 where ft: "f x tr1 = (r2, tr2)" by (cases "f x tr1")
    from f [of x] obtain es2 where es2: "tr2 = tr1 @ es2" "prefix es2 ys"
        "(\<exists>y. r2 = Inr y) \<longrightarrow> es2 = ys"
      unfolding follows_def using ft by (metis fst_conv snd_conv)
    have "and_then m f tr = (r2, tr @ xs @ es2)"
      using mt Inr ft es(1) exs es2(1) by (simp add: and_then_def)
    then show ?thesis
      using es2(2,3) by (intro exI [of _ "xs @ es2"]) simp
  qed
qed

lemma follows_write_commands:
  "follows (write_commands w cmds) (map (\<lambda>cmd. Write (command_line cmd)) cmds)"
proof (induction cmds)
  case Nil
  show ?case by (simp add: follows_def)
next
  case (Cons cmd cmds)
  have eq: "write_commands w (cmd # cmds)
          = and_then (call_api w (Write (command_line cmd))) (\<lambda>u. write_commands w cmds)"
    by (rule ext) (simp add: and_then_def split: prod.splits sum.splits)
  show ?case
    unfolding eq using follows_and_then [OF follows_call_api, of "\<lambda>u. write_commands w cmds"] Cons.IH
    by simp
qed

lemma follows_put_source:
  "follows (put_source w container source_base64) (source_calls w container source_base64)"
proof (cases source_base64)
  case None
  then show ?thesis by (simp add: put_source_def source_calls_def follows_from_result)
next
  case (Some s)
  show ?thesis
  proof (cases "s = []")
    case True
    then show ?thesis using Some by (simp add: put_source_def source_calls_def follows_from_result)
  next
    case False
    show ?thesis
    proof (cases "b64decode w s")
      case (Inl e)
      then show ?thesis using Some False
        by (simp add: put_source_def source_calls_def follows_def and_then_def from_result_def)
    next
      case (Inr tar_stream)
      then show ?thesis using Some False
        by (simp add: put_source_def source_calls_def follows_def and_then_def from_result_def
              call_api_eq)
    qed
  qed
qed

lemma follows_decode: "follows (\<lambda>tr. from_result (f tr) tr) []"
  by (simp add: follows_def from_result_def)

lemma follows_eval_commands:
  "follows (eval_commands w container commands source_base64)
     (eval_calls w container commands source_base64)"
proof -
  have "follows (eval_commands w container commands source_base64)
     (source_calls w container source_base64 @ [Start container] @ [AttachSocket container]
       @ map (\<lambda>cmd. Write (command_line cmd)) (commands @ [''exit''])
       @ [CloseSocket] @ [Wait container] @ [Logs container] @ [])"
    unfolding eval_commands_def
    by (intro follows_and_then follows_put_source follows_call_api follows_write_commands
          follows_decode)
  then show ?thesis by (simp add: eval_calls_def)
qed

lemma followsD:
  assumes "follows m expected" and "m tr = (r, tr')"
  shows "\<exists>es. tr' = tr @ es \<and> prefix es expected \<and> ((\<exists>x. r = Inr x) \<longrightarrow> es = expected)"
  using assms unfolding follows_def by (metis fst_conv snd_conv)

lemma written_append: "written (xs @ ys) = written xs @ written ys"
  by (induction xs rule: written.induct) simp_all

lemma written_map_Write: "written (map (\<lambda>cmd. Write (f cmd)) cmds) = map f cmds"
  by (induction cmds) simp_all

lemma written_source_calls: "written (source_calls w container source_base64) = []"
  by (simp add: source_calls_def split: option.splits sum.splits)

lemma written_eval_calls:
  "written (eval_calls w container commands source_base64)
     = map command_line (commands @ [''exit''])"
  by (simp add: eval_calls_def written_append written_map_Write written_source_calls
        del: map_append)

lemma prefix_written: "prefix es expected \<Longrightarrow> prefix (written es) (written expected)"
  by (auto simp: prefix_def written_append)

lemma replace_all_char:
  "replace_all [x] new s = concat (map (\<lambda>ch. if ch = x then new else [ch]) s)"
  by (induction s) auto

lemma command_line_eq:
  "command_line cmd = concat (map (\<lambda>ch. if ch = NL then '' ; '' else [ch]) cmd) @ [NL]"
  by (simp add: command_line_def str_replace_def replace_all_char)

text \<open>
  Claim C8. The texts written to the socket are, in request order, each command with
  every line feed replaced by \<open>space semicolon space\<close> and a line feed at its end,
  followed by the line \<open>exit\<close>: all of them when \<open>eval_commands\<close> returns, the first few
  when a call raises. The commands of the spec's example give exactly its two writes.
\<close>

theorem eval_commands_writes:
  assumes "eval_commands w container commands source_base64 tr0 = (outcome, tr)"
  shows "prefix (written tr) (written tr0 @ map command_line (commands @ [''exit'']))
       \<and> ((\<exists>out. outcome = Inr out)
            \<longrightarrow> written tr = written tr0 @ map command_line commands @ [''exit\<newline>''])
       \<and> (\<forall>cmd. command_line cmd
                 = concat (map (\<lambda>ch. if ch = NL then '' ; '' else [ch]) cmd) @ [NL])
       \<and> map command_line ([''echo a\<newline>echo b''] @ [''exit''])
           = [''echo a ; echo b\<newline>'', ''exit\<newline>'']"
proof -
  obtain es where
    es: "tr = tr0 @ es" "prefix es (eval_calls w container commands source_base64)"
      "(\<exists>x. outcome = Inr x) \<longrightarrow> es = eval_calls w container commands source_base64"
    using followsD [OF follows_eval_commands assms] by blast
  have 1: "prefix (written tr) (written tr0 @ map command_line (commands @ [''exit'']))"
    using prefix_written [OF es(2)] es(1) by (simp add: written_append written_eval_calls)
  have x: "command_line ''exit'' = ''exit\<newline>''"
    by (simp add: command_line_eq)
  have 2: "(\<exists>out. outcome = Inr out)
            \<longrightarrow> written tr = written tr0 @ map command_line commands @ [''exit\<newline>'']"
    using es(1,3) x by (auto simp: written_append written_eval_calls)
  have 3: "map command_line ([''echo a\<newline>echo b''] @ [''exit''])
           = [''echo a ; echo b\<newline>'', ''exit\<newline>'']"
    by (simp add: command_line_eq)
  show ?thesis using 1 2 3 command_line_eq by blast
qed

text \<open>The theorem in the quiet world, at the commands of the example.\<close>

theorem eval_commands_writes_witness:
  "eval_commands quiet_world ''c1'' [''echo a\<newline>echo b''] None []
     = (Inr ''[out] a\<newline>[out] b\<newline>'',
        [Start ''c1'', AttachSocket ''c1'', Write ''echo a ; echo b\<newline>'', Write ''exit\<newline>'',
         CloseSocket, Wait ''c1'', Logs ''c1''])
   \<and> written [Start ''c1'', AttachSocket ''c1'', Write ''echo a ; echo b\<newline>'',
               Write ''exit\<newline>'', CloseSocket, Wait ''c1'', Logs ''c1'']
       = written [] @ map command_line [''echo a\<newline>echo b''] @ [''exit\<newline>'']"
proof -
  have e: "eval_commands quiet_world ''c1'' [''echo a\<newline>echo b''] None []
     = (Inr ''[out] a\<newline>[out] b\<newline>'',
        [Start ''c1'', AttachSocket ''c1'', Write ''echo a ; echo b\<newline>'', Write ''exit\<newline>'',
         CloseSocket, Wait ''c1'', Logs ''c1''])"
    by (simp add: eval_commands_def and_then_def call_api_def put_source_def from_result_def
          quiet_world_def command_line_eq)
  have w: "written [Start ''c1'', AttachSocket ''c1'', Write ''echo a ; echo b\<newline>'',
               Write ''exit\<newline>'', CloseSocket, Wait ''c1'', Logs ''c1'']
       = written [] @ map command_line [''echo a\<newline>echo b''] @ [''exit\<newline>'']"
    by (rule eval_commands_writes [OF e, THEN conjunct2, THEN conjunct1, THEN mp])
       (rule exI, rule refl)
  show ?thesis
    by (rule conjI [OF e w])
qed

lemma nth_eval_calls_put:
  assumes "prefix es ([PutArchive container SRC_ROOT d, Start container, AttachSocket container]
             @ map (\<lambda>cmd. Write (command_line cmd)) cmds
             @ [CloseSocket, Wait container, Logs container])"
  shows "(\<forall>i<length es. es ! i = Start container
            \<longrightarrow> (\<exists>j<i. \<exists>data. es ! j = PutArchive container SRC_ROOT data))
       \<and> (\<forall>i<length es. \<forall>text. es ! i = Write text \<longrightarrow> (\<exists>j<i. es ! j = Start container))"
proof -
  let ?W = "map (\<lambda>cmd. Write (command_line cmd)) cmds @ [CloseSocket, Wait container, Logs container]"
  let ?E = "PutArchive container SRC_ROOT d # Start container # AttachSocket container # ?W"
  have nth: "\<And>i. i < length es \<Longrightarrow> es ! i = ?E ! i"
    using assms by (auto simp: prefix_def nth_append)
  have noStart: "\<And>k. k < length ?W \<Longrightarrow> ?W ! k \<noteq> Start container"
    by (auto simp: nth_append nth_Cons split: nat.splits)
  show ?thesis
  proof (intro conjI allI impI)
    fix i assume i: "i < length es" and s: "es ! i = Start container"
    have "?E ! i = Start container" using nth [OF i] s by simp
    moreover have "i < length ?E" using i assms by (auto dest: prefix_length_le)
    ultimately have "i = 1"
      using noStart [of "i - 3"] by (cases i; simp add: nth_Cons split: nat.splits) 
    moreover have "0 < length es" using i by (cases es) simp_all
    ultimately have "0 < i \<and> es ! 0 = PutArchive container SRC_ROOT d"
      using nth [of 0] by simp
    then show "\<exists>j<i. \<exists>data. es ! j = PutArchive container SRC_ROOT data" by blast
  next
    fix i t assume i: "i < length es" and s: "es ! i = Write t"
    have "?E ! i = Write t" using nth [OF i] s by simp
    then have "3 \<le> i"
      by (cases i; simp add: nth_Cons split: nat.splits)
    moreover from this have "1 < length es" using i by simp
    ultimately have "1 < i \<and> es ! 1 = Start container"
      using nth [of 1] by simp
    then show "\<exists>j<i. es ! j = Start container" by blast
  qed
qed

text \<open>
  Claim C9. With a source that is present and not empty, among the calls that
  \<open>eval_commands\<close> makes every start of the container has the unpacking of the source
  into the working root before it, and every write of a command has the start before
  it, on the paths that raise too; when \<open>eval_commands\<close> returns, the calls are exactly
  unpack, start, attach, the writes, close, wait, logs.
\<close>

theorem unpack_before_start_before_stream:
  assumes "source_base64 = Some s" and "s \<noteq> []"
    and "eval_commands w container commands source_base64 tr0 = (outcome, tr)"
  shows "\<exists>es. tr = tr0 @ es
       \<and> (\<forall>i<length es. es ! i = Start container
            \<longrightarrow> (\<exists>j<i. \<exists>data. es ! j = PutArchive container SRC_ROOT data))
       \<and> (\<forall>i<length es. \<forall>text. es ! i = Write text \<longrightarrow> (\<exists>j<i. es ! j = Start container))
       \<and> (\<forall>out. outcome = Inr out \<longrightarrow>
            (\<exists>data. b64decode w s = Inr data
               \<and> es = [PutArchive container SRC_ROOT data, Start container, AttachSocket container]
                      @ map (\<lambda>cmd. Write (command_line cmd)) (commands @ [''exit''])
                      @ [CloseSocket, Wait container, Logs container]))"
proof -
  obtain es where
    es: "tr = tr0 @ es" "prefix es (eval_calls w container commands source_base64)"
      "(\<exists>x. outcome = Inr x) \<longrightarrow> es = eval_calls w container commands source_base64"
    using followsD [OF follows_eval_commands assms(3)] by blast
  show ?thesis
  proof (cases "b64decode w s")
    case (Inl e)
    obtain r t where pt: "put_source w container source_base64 tr0 = (r, t)"
      by (cases "put_source w container source_base64 tr0")
    have p: "put_source w container source_base64 tr0 = (Inl e, tr0)"
      using Inl assms(1,2) by (simp add: put_source_def and_then_def from_result_def)
    have "eval_commands w container commands source_base64 tr0 = (Inl e, tr0)"
      using p by (simp add: eval_commands_def and_then_def)
    then have "es = []" "outcome = Inl e" using assms(3) es(1) by simp_all
    then show ?thesis using es(1) by simp
  next
    case (Inr d)
    have E: "eval_calls w container commands source_base64
           = [PutArchive container SRC_ROOT d, Start container, AttachSocket container]
             @ map (\<lambda>cmd. Write (command_line cmd)) (commands @ [''exit''])
             @ [CloseSocket, Wait container, Logs container]"
      using Inr assms(1,2) by (simp add: eval_calls_def source_calls_def)
    from nth_eval_calls_put [OF es(2) [unfolded E]] es(1) es(3) E Inr
    show ?thesis by (intro exI [of _ es]) simp
  qed
qed

text \<open>The theorem in the quiet world, at a request with a source and one command.\<close>

theorem unpack_before_start_before_stream_witness:
  "eval_commands quiet_world ''c1'' [''make''] (Some ''dGFy'') []
     = (Inr ''[out] a\<newline>[out] b\<newline>'',
        [PutArchive ''c1'' ''/app/src'' ''dGFy'', Start ''c1'', AttachSocket ''c1'',
         Write ''make\<newline>'', Write ''exit\<newline>'', CloseSocket, Wait ''c1'', Logs ''c1''])"
proof -
  have e: "eval_commands quiet_world ''c1'' [''make''] (Some ''dGFy'') []
     = (Inr ''[out] a\<newline>[out] b\<newline>'',
        [PutArchive ''c1'' ''/app/src'' ''dGFy'', Start ''c1'', AttachSocket ''c1'',
         Write ''make\<newline>'', Write ''exit\<newline>'', CloseSocket, Wait ''c1'', Logs ''c1''])"
    by (simp add: eval_commands_def and_then_def call_api_def put_source_def from_result_def
          quiet_world_def command_line_eq SRC_ROOT_def)
  have n: "''dGFy'' \<noteq> []" by simp
  from unpack_before_start_before_stream [OF refl n e] e
  show ?thesis by simp
qed

section \<open>Properties of the orchestrator and the archive filter\<close>

lemma follows_retrieve:
  "follows (retrieve_archive_base64 w container d) (retrieve_calls container d)"
proof (cases "dist_artifacts d = None \<or> dist_artifacts d = Some []")
  case True
  then show ?thesis
    by (auto simp: retrieve_archive_base64_def retrieve_calls_def follows_from_result Let_def)
next
  case False
  then obtain a as where a: "dist_artifacts d = Some (a # as)"
    by (cases "dist_artifacts d"; simp) (metis list.exhaust)
  let ?base = "case dist_base_path d of None \<Rightarrow> [] | Some b \<Rightarrow> b"
  let ?rest = "\<lambda>tr. and_then (from_result (tar_members w (foldl (@) [] (archive_of w tr))))
               (\<lambda>ms. and_then (from_result
                          (extract_members w (foldl (@) [] (archive_of w tr)) ?base (a # as) ms))
                 (\<lambda>members. from_result (Inr (Some (b64encode w (tar_bytes w members)))))) tr"
  have "follows (and_then (call_api w (GetArchive container (path_join SRC_ROOT ?base)))
            (\<lambda>u. ?rest))
          ([GetArchive container (path_join SRC_ROOT ?base)] @ [])"
  proof (rule follows_and_then [OF follows_call_api])
    fix u :: unit
    show "follows ?rest []"
      by (simp add: follows_def and_then_def from_result_def split: sum.splits)
  qed
  then show ?thesis
    using a by (simp add: retrieve_archive_base64_def retrieve_calls_def Let_def)
qed

lemma create_container_eq:
  "create_container w tr =
     ((case fails w tr (CreateContainer IMAGE True) of
         Some e \<Rightarrow> Inl e
       | None \<Rightarrow> Inr (new_container w)),
      tr @ [CreateContainer IMAGE True])"
  by (simp add: create_container_def and_then_def call_api_eq from_result_def
        split: option.splits)

lemma set_source_calls: "RemoveContainer c \<notin> set (source_calls w container source_base64)"
  by (simp add: source_calls_def split: option.splits sum.splits)

lemma set_eval_calls: "RemoveContainer c \<notin> set (eval_calls w container commands source_base64)"
  by (auto simp: eval_calls_def set_source_calls)

lemma set_retrieve_calls: "RemoveContainer c \<notin> set (retrieve_calls container d)"
  by (simp add: retrieve_calls_def split: option.splits)

lemma follows_no_remove:
  assumes "follows m expected" and "RemoveContainer c \<notin> set expected" and "m tr = (r, tr')"
  shows "\<exists>es. tr' = tr @ es \<and> RemoveContainer c \<notin> set es"
proof -
  obtain es where "tr' = tr @ es" "prefix es expected"
    using followsD [OF assms(1,3)] by blast
  then show ?thesis
    using assms(2) set_mono_prefix by blast
qed

lemma destroyed_iff:
  "destroyed w tr c =
     (\<exists>i<length tr. tr ! i = RemoveContainer c \<and> fails w (take i tr) (RemoveContainer c) = None)"
  by (auto simp: destroyed_def list_ex_iff)

lemma not_destroyed: "RemoveContainer c \<notin> set tr \<Longrightarrow> \<not> destroyed w tr c"
  unfolding destroyed_iff using nth_mem by metis

lemma destroyed_snoc:
  assumes "RemoveContainer c \<notin> set tr"
  shows "destroyed w (tr @ [RemoveContainer c]) c = (fails w tr (RemoveContainer c) = None)"
proof
  assume "destroyed w (tr @ [RemoveContainer c]) c"
  then obtain i where i: "i < Suc (length tr)" "(tr @ [RemoveContainer c]) ! i = RemoveContainer c"
      "fails w (take i (tr @ [RemoveContainer c])) (RemoveContainer c) = None"
    by (auto simp: destroyed_iff)
  have "i = length tr"
  proof (rule ccontr)
    assume "i \<noteq> length tr"
    then have "i < length tr" using i(1) by simp
    then have "tr ! i = RemoveContainer c" using i(2) by (simp add: nth_append)
    then show False using assms \<open>i < length tr\<close> nth_mem by metis
  qed
  then show "fails w tr (RemoveContainer c) = None" using i(3) by simp
next
  assume "fails w tr (RemoveContainer c) = None"
  then show "destroyed w (tr @ [RemoveContainer c]) c"
    unfolding destroyed_iff by (intro exI [of _ "length tr"]) simp
qed

lemma run_None:
  "run w None [] = (outcome, tr) \<Longrightarrow>
     (\<exists>e. outcome = Inl e) \<and> RemoveContainer c \<notin> set tr"
  by (auto simp: run_def and_then_def call_api_eq create_container_eq from_result_def
        split: option.splits)

lemma run_Some:
  assumes "run w (Some req) [] = (outcome, tr)"
  shows "((\<exists>e. outcome = Inl e) \<and> RemoveContainer (new_container w) \<notin> set tr)
       \<or> (\<exists>t. RemoveContainer (new_container w) \<notin> set t
              \<and> tr = t @ [RemoveContainer (new_container w)]
              \<and> (fails w t (RemoveContainer (new_container w)) = None) = (\<exists>resp. outcome = Inr resp))"
proof -
  let ?c = "new_container w"
  let ?cmds = "case req_commands req of None \<Rightarrow> [] | Some cs \<Rightarrow> cs"
  let ?d = "case req_dist req of
              None \<Rightarrow> \<lparr>dist_base_path = None, dist_artifacts = None\<rparr> | Some d \<Rightarrow> d"
  let ?t2 = "[NewClient, CreateContainer IMAGE True]"
  obtain r3 t3 where ev: "eval_commands w ?c ?cmds (req_source req) ?t2 = (r3, t3)"
    by (cases "eval_commands w ?c ?cmds (req_source req) ?t2")
  obtain es3 where es3: "t3 = ?t2 @ es3" "RemoveContainer ?c \<notin> set es3"
    using follows_no_remove [OF follows_eval_commands set_eval_calls ev] by blast
  obtain r5 t5 where re: "retrieve_archive_base64 w ?c ?d t3 = (r5, t5)"
    by (cases "retrieve_archive_base64 w ?c ?d t3")
  obtain es5 where es5: "t5 = t3 @ es5" "RemoveContainer ?c \<notin> set es5"
    using follows_no_remove [OF follows_retrieve set_retrieve_calls re] by blast
  have t3: "RemoveContainer ?c \<notin> set t3" using es3 by simp
  have t5: "RemoveContainer ?c \<notin> set t5" using es3 es5 by simp
  show ?thesis
  proof (cases "fails w [] NewClient")
    case (Some e)
    then show ?thesis using assms by (auto simp: run_def and_then_def call_api_eq)
  next
    case n1: None
    show ?thesis
    proof (cases "fails w [NewClient] (CreateContainer IMAGE True)")
      case (Some e)
      then show ?thesis using assms n1
        by (auto simp: run_def and_then_def call_api_eq create_container_eq)
    next
      case n2: None
      show ?thesis
      proof (cases r3)
        case (Inl e)
        then show ?thesis using assms n1 n2 ev t3
          by (auto simp: run_def and_then_def call_api_eq create_container_eq)
      next
        case lines: (Inr lines)
        show ?thesis
        proof (cases "parse_output lines")
          case (Inl e)
          then show ?thesis using assms n1 n2 ev t3 lines
            by (auto simp: run_def and_then_def call_api_eq create_container_eq from_result_def)
        next
          case results: (Inr results)
          show ?thesis
          proof (cases r5)
            case (Inl e)
            then show ?thesis using assms n1 n2 ev t3 lines results re t5
              by (auto simp: run_def and_then_def call_api_eq create_container_eq
                    from_result_def)
          next
            case out: (Inr output_tarball)
            have "run w (Some req) [] =
                    ((case fails w t5 (RemoveContainer ?c) of
                        Some e \<Rightarrow> Inl e
                      | None \<Rightarrow> Inr \<lparr>resp_results = results, resp_output = output_tarball\<rparr>),
                     t5 @ [RemoveContainer ?c])"
              using n1 n2 ev lines results re out
              by (simp add: run_def and_then_def call_api_eq create_container_eq
                    from_result_def split: option.splits)
            then have "tr = t5 @ [RemoveContainer ?c]"
              and "(fails w t5 (RemoveContainer ?c) = None) = (\<exists>resp. outcome = Inr resp)"
              using assms by (auto split: option.splits)
            then show ?thesis using t5 by (intro disjI2 exI [of _ t5]) simp
          qed
        qed
      qed
    qed
  qed
qed

text \<open>
  Claim C4, as amended. The container is destroyed (a call of \<open>remove_container\<close> for
  it did not raise) exactly when \<open>run\<close> returns a response; then the removal is the
  last call and the only removal. On every path on which a step raises, the error
  leaves \<open>run\<close> with the container not destroyed: the source has no handler.
\<close>

theorem run_destroys_container_iff_returns:
  assumes "run w request [] = (outcome, tr)"
  shows "destroyed w tr (new_container w) = (\<exists>resp. outcome = Inr resp)
       \<and> ((\<exists>resp. outcome = Inr resp)
            \<longrightarrow> last tr = RemoveContainer (new_container w)
              \<and> count_list tr (RemoveContainer (new_container w)) = 1)"
proof (cases request)
  case None
  then show ?thesis
    using run_None [of w outcome tr "new_container w"] assms not_destroyed by auto
next
  case (Some req)
  from run_Some [OF assms [unfolded Some]] show ?thesis
  proof
    assume "(\<exists>e. outcome = Inl e) \<and> RemoveContainer (new_container w) \<notin> set tr"
    then show ?thesis using not_destroyed by auto
  next
    assume "\<exists>t. RemoveContainer (new_container w) \<notin> set t
              \<and> tr = t @ [RemoveContainer (new_container w)]
              \<and> (fails w t (RemoveContainer (new_container w)) = None) = (\<exists>resp. outcome = Inr resp)"
    then obtain t where t: "RemoveContainer (new_container w) \<notin> set t"
        "tr = t @ [RemoveContainer (new_container w)]"
        "(fails w t (RemoveContainer (new_container w)) = None) = (\<exists>resp. outcome = Inr resp)"
      by (elim exE conjE)
    have "count_list t (RemoveContainer (new_container w)) = 0"
      using t(1) by (simp add: count_list_0_iff)
    then show ?thesis
      using t destroyed_snoc [OF t(1), of w] by simp
  qed
qed

lemma quiet_run:
  "run quiet_world
       (Some \<lparr>req_source = None, req_commands = Some [''make''], req_dist = None\<rparr>) []
     = (Inr \<lparr>resp_results = [[(''out'', [''a'', ''b''])]], resp_output = None\<rparr>,
        [NewClient, CreateContainer IMAGE True, Start ''c1'', AttachSocket ''c1'',
         Write ''make\<newline>'', Write ''exit\<newline>'', CloseSocket, Wait ''c1'', Logs ''c1'',
         RemoveContainer ''c1''])"
proof -
  have p: "parse_output ''[out] a\<newline>[out] b\<newline>'' = Inr [[(''out'', [''a'', ''b''])]]"
    by code_simp
  show ?thesis
    by (simp add: run_def eval_commands_def and_then_def call_api_def put_source_def
          from_result_def create_container_def retrieve_archive_base64_def
          quiet_world_def command_line_eq p)
qed

text \<open>The theorem in the quiet world: \<open>run\<close> returns and the container is destroyed.\<close>

theorem run_destroys_container_iff_returns_witness:
  "run quiet_world
       (Some \<lparr>req_source = None, req_commands = Some [''make''], req_dist = None\<rparr>) []
     = (Inr \<lparr>resp_results = [[(''out'', [''a'', ''b''])]], resp_output = None\<rparr>,
        [NewClient, CreateContainer IMAGE True, Start ''c1'', AttachSocket ''c1'',
         Write ''make\<newline>'', Write ''exit\<newline>'', CloseSocket, Wait ''c1'', Logs ''c1'',
         RemoveContainer ''c1''])
   \<and> destroyed quiet_world
        [NewClient, CreateContainer IMAGE True, Start ''c1'', AttachSocket ''c1'',
         Write ''make\<newline>'', Write ''exit\<newline>'', CloseSocket, Wait ''c1'', Logs ''c1'',
         RemoveContainer ''c1''] (new_container quiet_world)"
proof -
  have d: "destroyed quiet_world
        [NewClient, CreateContainer IMAGE True, Start ''c1'', AttachSocket ''c1'',
         Write ''make\<newline>'', Write ''exit\<newline>'', CloseSocket, Wait ''c1'', Logs ''c1'',
         RemoveContainer ''c1''] (new_container quiet_world)"
    using run_destroys_container_iff_returns [OF quiet_run, THEN conjunct1] by simp
  show ?thesis
    by (rule conjI [OF quiet_run d])
qed

text \<open>
  Claim C4 as stated fails: where reading the logs raises, \<open>run\<close> ends with that error
  after the container was created and started, and no call removes the container.
\<close>

theorem run_error_leaves_container_counterexample:
  "run logs_fail_world
       (Some \<lparr>req_source = None, req_commands = Some [''make''], req_dist = None\<rparr>) []
     = (Inl APIError,
        [NewClient, CreateContainer IMAGE True, Start ''c1'', AttachSocket ''c1'',
         Write ''make\<newline>'', Write ''exit\<newline>'', CloseSocket, Wait ''c1'', Logs ''c1''])
   \<and> \<not> destroyed logs_fail_world
        [NewClient, CreateContainer IMAGE True, Start ''c1'', AttachSocket ''c1'',
         Write ''make\<newline>'', Write ''exit\<newline>'', CloseSocket, Wait ''c1'', Logs ''c1''] ''c1''"
proof -
  have r: "run logs_fail_world
       (Some \<lparr>req_source = None, req_commands = Some [''make''], req_dist = None\<rparr>) []
     = (Inl APIError,
        [NewClient, CreateContainer IMAGE True, Start ''c1'', AttachSocket ''c1'',
         Write ''make\<newline>'', Write ''exit\<newline>'', CloseSocket, Wait ''c1'', Logs ''c1''])"
    by (simp add: run_def eval_commands_def and_then_def call_api_def put_source_def
          from_result_def create_container_def logs_fail_world_def
          quiet_world_def command_line_eq)
  have d: "\<not> destroyed logs_fail_world
        [NewClient, CreateContainer IMAGE True, Start ''c1'', AttachSocket ''c1'',
         Write ''make\<newline>'', Write ''exit\<newline>'', CloseSocket, Wait ''c1'', Logs ''c1''] ''c1''"
    by (rule not_destroyed) simp
  show ?thesis
    by (rule conjI [OF r d])
qed

lemma retrieve_some:
  assumes "dist_artifacts d = Some artifacts" and "artifacts \<noteq> []"
    and "(case dist_base_path d of None \<Rightarrow> [] | Some b \<Rightarrow> b) = base"
    and "fails w tr (GetArchive container (path_join SRC_ROOT base)) = None"
    and "foldl (@) [] (archive_of w (tr @ [GetArchive container (path_join SRC_ROOT base)]))
           = in_obj"
    and "tar_members w in_obj = Inr ms"
  shows "retrieve_archive_base64 w container d tr
           = ((case extract_members w in_obj base artifacts ms of
                 Inl e \<Rightarrow> Inl e
               | Inr members \<Rightarrow> Inr (Some (b64encode w (tar_bytes w members)))),
              tr @ [GetArchive container (path_join SRC_ROOT base)])"
  using assms
  by (simp add: retrieve_archive_base64_def from_result_def and_then_def call_api_eq Let_def
        split: sum.splits)

lemma extract_members_none:
  "\<forall>m \<in> set ms. \<not> selected w base artifacts m
     \<Longrightarrow> extract_members w in_obj base artifacts ms = Inr []"
  by (induction ms) simp_all

lemma extract_members_ok:
  "\<forall>m \<in> set ms. selected w base artifacts m \<longrightarrow> (\<exists>data. extractfile w in_obj m = Inr data)
     \<Longrightarrow> extract_members w in_obj base artifacts ms
         = Inr (map (\<lambda>m. (m, case extractfile w in_obj m of Inl e \<Rightarrow> None | Inr data \<Rightarrow> data))
                  (filter (selected w base artifacts) ms))"
  by (induction ms) auto

lemma extract_members_raise:
  assumes "selected w base artifacts m" and "extractfile w in_obj m = Inl e"
    and "\<forall>m' \<in> set before.
           selected w base artifacts m' \<longrightarrow> (\<exists>data. extractfile w in_obj m' = Inr data)"
  shows "extract_members w in_obj base artifacts (before @ m # after) = Inl e"
  using assms(3)
proof (induction before)
  case Nil
  show ?case using assms(1,2) by simp
next
  case (Cons b before)
  then show ?case by auto
qed

text \<open>
  Claim C2. With an artifacts list that is missing or empty, the result is \<open>None\<close> and
  no call is made. With a non-empty list, an archive that the host returns and the
  library reads, and no member selected, the result is present: the encoding of the
  archive that the library writes when no member is added.
\<close>

theorem archive_absent_or_empty:
  "((dist_artifacts d = None \<or> dist_artifacts d = Some [])
      \<longrightarrow> retrieve_archive_base64 w container d tr = (Inr None, tr))
   \<and> ((dist_artifacts d = Some artifacts \<and> artifacts \<noteq> []
        \<and> (case dist_base_path d of None \<Rightarrow> [] | Some b \<Rightarrow> b) = base
        \<and> fails w tr (GetArchive container (path_join SRC_ROOT base)) = None
        \<and> tar_members w (foldl (@) []
              (archive_of w (tr @ [GetArchive container (path_join SRC_ROOT base)]))) = Inr ms
        \<and> (\<forall>m \<in> set ms. \<not> selected w base artifacts m))
      \<longrightarrow> retrieve_archive_base64 w container d tr
            = (Inr (Some (b64encode w (tar_bytes w []))),
               tr @ [GetArchive container (path_join SRC_ROOT base)]))"
proof (intro conjI impI)
  assume "dist_artifacts d = None \<or> dist_artifacts d = Some []"
  then show "retrieve_archive_base64 w container d tr = (Inr None, tr)"
    by (auto simp: retrieve_archive_base64_def from_result_def Let_def)
next
  let ?in_obj = "foldl (@) []
              (archive_of w (tr @ [GetArchive container (path_join SRC_ROOT base)]))"
  assume a: "dist_artifacts d = Some artifacts \<and> artifacts \<noteq> []
        \<and> (case dist_base_path d of None \<Rightarrow> [] | Some b \<Rightarrow> b) = base
        \<and> fails w tr (GetArchive container (path_join SRC_ROOT base)) = None
        \<and> tar_members w (foldl (@) []
              (archive_of w (tr @ [GetArchive container (path_join SRC_ROOT base)]))) = Inr ms
        \<and> (\<forall>m \<in> set ms. \<not> selected w base artifacts m)"
  then have "\<forall>m \<in> set ms. \<not> selected w base artifacts m"
    by (elim conjE)
  then have f: "extract_members w ?in_obj base artifacts ms = Inr []"
    by (rule extract_members_none)
  from a have "retrieve_archive_base64 w container d tr
           = ((case extract_members w ?in_obj base artifacts ms of
                 Inl e \<Rightarrow> Inl e
               | Inr members \<Rightarrow> Inr (Some (b64encode w (tar_bytes w members)))),
              tr @ [GetArchive container (path_join SRC_ROOT base)])"
    by (elim conjE) (rule retrieve_some [OF _ _ _ _ refl])
  then show "retrieve_archive_base64 w container d tr
            = (Inr (Some (b64encode w (tar_bytes w []))),
               tr @ [GetArchive container (path_join SRC_ROOT base)])"
    by (simp only: f sum.case)
qed

lemma quiet_members:
  "tar_members quiet_world (foldl (@) []
     (archive_of quiet_world [GetArchive ''c1'' (path_join SRC_ROOT ''build'')]))
   = Inr three_members"
  by (simp add: quiet_world_def three_members_def)

lemma quiet_fails: "fails quiet_world tr c = None"
  by (simp add: quiet_world_def)

lemma translate_md: "translate_from [] ''build/*.md''
  = map LIT ''build/'' @ [STAR] @ map LIT ''.md''"
  by simp

lemma no_md: "\<forall>m \<in> set three_members. \<not> selected quiet_world ''build'' [''*.md''] m"
  by (simp add: three_members_def selected_def fnmatch_def path_join_def translate_md)

text \<open>
  The theorem in the quiet world: a request with no artifacts, and one whose only
  pattern, \<open>*.md\<close>, matches none of the three members.
\<close>

theorem archive_absent_or_empty_witness:
  "retrieve_archive_base64 quiet_world ''c1''
      \<lparr>dist_base_path = None, dist_artifacts = None\<rparr> [] = (Inr None, [])
   \<and> retrieve_archive_base64 quiet_world ''c1''
      \<lparr>dist_base_path = Some ''build'', dist_artifacts = Some [''*.md'']\<rparr> []
       = (Inr (Some (b64encode quiet_world (tar_bytes quiet_world []))),
          [] @ [GetArchive ''c1'' (path_join SRC_ROOT ''build'')])"
proof -
  have 1: "retrieve_archive_base64 quiet_world ''c1''
      \<lparr>dist_base_path = None, dist_artifacts = None\<rparr> [] = (Inr None, [])"
    by (rule archive_absent_or_empty [THEN conjunct1, THEN mp]) simp
  have 2: "retrieve_archive_base64 quiet_world ''c1''
      \<lparr>dist_base_path = Some ''build'', dist_artifacts = Some [''*.md'']\<rparr> []
       = (Inr (Some (b64encode quiet_world (tar_bytes quiet_world []))),
          [] @ [GetArchive ''c1'' (path_join SRC_ROOT ''build'')])"
    by (rule archive_absent_or_empty [where artifacts = "[''*.md'']" and ms = three_members,
          THEN conjunct2, THEN mp])
       (simp add: quiet_fails quiet_members no_md)
  show ?thesis
    by (rule conjI [OF 1 2])
qed

lemma translate_literal:
  "literal p \<Longrightarrow> translate_from res (p @ rest) = translate_from (res @ map LIT p) rest"
  by (induction p arbitrary: res) (simp_all add: literal_def)

lemma translate_literal_star:
  assumes "literal pre" and "literal post"
  shows "translate_from [] (pre @ ''*'' @ post) = map LIT pre @ STAR # map LIT post"
proof -
  have "translate_from [] (pre @ ''*'' @ post) = translate_from (map LIT pre) (''*'' @ post)"
    using translate_literal [OF assms(1), of "[]"] by simp
  also have "\<dots> = translate_from (map LIT pre @ [STAR]) post"
    by (cases pre rule: rev_cases) simp_all
  also have "\<dots> = translate_from ((map LIT pre @ [STAR]) @ map LIT post) []"
    using translate_literal [OF assms(2), of "map LIT pre @ [STAR]" "[]"] by simp
  finally show ?thesis by simp
qed

lemma glob_match_literals:
  "glob_match cls (map LIT p @ ts) s = (\<exists>r. s = p @ r \<and> glob_match cls ts r)"
proof (induction p arbitrary: s)
  case Nil
  show ?case by simp
next
  case (Cons x p)
  show ?case by (cases s) (auto simp: Cons.IH)
qed

lemma glob_match_star:
  "glob_match cls (STAR # ts) s = (\<exists>a b. s = a @ b \<and> glob_match cls ts b)"
proof (induction s)
  case Nil
  show ?case by simp
next
  case (Cons c cs)
  show ?case
  proof
    assume "glob_match cls (STAR # ts) (c # cs)"
    then consider "glob_match cls ts (c # cs)" | "glob_match cls (STAR # ts) cs" by auto
    then show "\<exists>a b. c # cs = a @ b \<and> glob_match cls ts b"
    proof cases
      case 1
      then show ?thesis by (intro exI [of _ "[]"] exI [of _ "c # cs"]) simp
    next
      case 2
      then obtain a b where "cs = a @ b" "glob_match cls ts b" using Cons.IH by blast
      then show ?thesis by (intro exI [of _ "c # a"] exI [of _ b]) simp
    qed
  next
    assume "\<exists>a b. c # cs = a @ b \<and> glob_match cls ts b"
    then obtain a b where ab: "c # cs = a @ b" "glob_match cls ts b" by blast
    show "glob_match cls (STAR # ts) (c # cs)"
    proof (cases a)
      case Nil
      then have "glob_match cls ts (c # cs)" using ab by simp
      then show ?thesis by simp
    next
      case (Cons x a')
      then have "cs = a' @ b" using ab(1) by simp
      then have "glob_match cls (STAR # ts) cs" using Cons.IH ab(2) by blast
      then show ?thesis by simp
    qed
  qed
qed

lemma fnmatch_literal_star:
  assumes "literal pre" and "literal post"
  shows "fnmatch w name (pre @ ''*'' @ post) = (\<exists>mid. name = pre @ mid @ post)"
proof -
  have "glob_match (bracket_class w) (map LIT post) b = (b = post)" for b
    using glob_match_literals [of "bracket_class w" post "[]" b] by auto
  then show ?thesis
    unfolding fnmatch_def translate_literal_star [OF assms]
    by (auto simp: glob_match_literals glob_match_star)
qed

lemma selected_iff:
  "selected w base artifacts
     = (\<lambda>m. \<exists>artifact \<in> set artifacts. fnmatch w (member_name m) (path_join base artifact))"
  by (simp add: fun_eq_iff selected_def list_ex_iff)

lemma glob_match_append_step:
  assumes step: "\<And>ts' c cs. glob_match cls (t # ts') (c # cs) = (P c \<and> glob_match cls ts' cs)"
    and nil: "\<And>ts'. \<not> glob_match cls (t # ts') []"
    and IH: "\<And>s. glob_match cls (ts @ us) s
               = (\<exists>a b. s = a @ b \<and> glob_match cls ts a \<and> glob_match cls us b)"
  shows "glob_match cls ((t # ts) @ us) s
           = (\<exists>a b. s = a @ b \<and> glob_match cls (t # ts) a \<and> glob_match cls us b)"
proof (cases s)
  case Nil
  then show ?thesis using nil by simp
next
  case (Cons c cs)
  show ?thesis
  proof
    assume "glob_match cls ((t # ts) @ us) s"
    then have "P c" and "glob_match cls (ts @ us) cs"
      using Cons step [of "ts @ us" c cs] by simp_all
    then obtain a b where ab: "cs = a @ b" "glob_match cls ts a" "glob_match cls us b"
      using IH by blast
    have "glob_match cls (t # ts) (c # a)" using step \<open>P c\<close> ab(2) by simp
    then show "\<exists>a b. s = a @ b \<and> glob_match cls (t # ts) a \<and> glob_match cls us b"
      using Cons ab(1,3) by (intro exI [of _ "c # a"] exI [of _ b]) simp
  next
    assume "\<exists>a b. s = a @ b \<and> glob_match cls (t # ts) a \<and> glob_match cls us b"
    then obtain a b where ab: "s = a @ b" "glob_match cls (t # ts) a" "glob_match cls us b"
      by blast
    obtain a' where a: "a = c # a'" "cs = a' @ b"
      using ab(1,2) Cons nil by (cases a) auto
    have "P c" and "glob_match cls ts a'" using ab(2) a(1) step by simp_all
    then have "glob_match cls (ts @ us) cs" using IH a(2) ab(3) by blast
    then show "glob_match cls ((t # ts) @ us) s"
      using Cons step [of "ts @ us" c cs] \<open>P c\<close> by simp
  qed
qed

lemma glob_match_append:
  "glob_match cls (ts @ us) s = (\<exists>a b. s = a @ b \<and> glob_match cls ts a \<and> glob_match cls us b)"
proof (induction ts arbitrary: s)
  case Nil
  show ?case by simp
next
  case (Cons t ts)
  show ?case
  proof (cases t)
    case STAR
    have "glob_match cls ((t # ts) @ us) s
            = (\<exists>x b. s = x @ b \<and> (\<exists>b1 b2. b = b1 @ b2 \<and> glob_match cls ts b1 \<and> glob_match cls us b2))"
      using STAR glob_match_star [of cls "ts @ us" s] Cons.IH by simp
    also have "\<dots> = (\<exists>a b. s = a @ b \<and> (\<exists>x b1. a = x @ b1 \<and> glob_match cls ts b1)
                              \<and> glob_match cls us b)"
      by (metis append.assoc)
    also have "\<dots> = (\<exists>a b. s = a @ b \<and> glob_match cls (t # ts) a \<and> glob_match cls us b)"
      using STAR glob_match_star [of cls ts] by simp
    finally show ?thesis .
  next
    case ANY
    show ?thesis
      unfolding ANY by (rule glob_match_append_step [where P = "\<lambda>c. True"]) (simp_all add: Cons.IH)
  next
    case (LIT x)
    show ?thesis
      unfolding LIT by (rule glob_match_append_step [where P = "\<lambda>c. c = x"]) (simp_all add: Cons.IH)
  next
    case (CLASS stuff)
    show ?thesis
      unfolding CLASS
      by (rule glob_match_append_step [where P = "\<lambda>c. cls stuff c"]) (simp_all add: Cons.IH)
  qed
qed

lemma glob_match_one_star: "glob_match cls [STAR] s"
  by (induction s) simp_all

lemma glob_match_two_stars: "glob_match cls [STAR, STAR] s"
  using glob_match_star [of cls "[STAR]" s] glob_match_one_star by blast

lemma glob_match_context:
  assumes "\<And>s. glob_match cls xs s = glob_match cls ys s"
  shows "glob_match cls (ts @ xs @ us) s = glob_match cls (ts @ ys @ us) s"
  by (simp add: glob_match_append [of cls ts] glob_match_append [of cls xs]
        glob_match_append [of cls ys] assms)

lemma glob_match_star_star:
  "glob_match cls (ts @ [STAR] @ [STAR] @ us) s = glob_match cls (ts @ [STAR] @ us) s"
proof -
  have "glob_match cls [STAR, STAR] x = glob_match cls [STAR] x" for x
    using glob_match_one_star glob_match_two_stars by simp
  from glob_match_context [of cls "[STAR, STAR]" "[STAR]", OF this, of ts us s]
  show ?thesis by simp
qed

lemma bracket_body_shorter:
  "bracket_body rest = Some (stuff, rest') \<Longrightarrow> length rest' < length rest"
  by (auto simp: bracket_body_def Let_def split: if_splits)

lemma glob_match_prefix_cong:
  assumes "\<And>s. glob_match cls xs s = glob_match cls ys s"
  shows "glob_match cls (ts @ xs) s = glob_match cls (ts @ ys) s"
  by (simp add: glob_match_append [of cls ts] assms)

lemma translate_sem:
  "glob_match cls (translate_from res pat) s = glob_match cls (res @ translate_from [] pat) s"
proof (induction "length pat" arbitrary: pat res s rule: less_induct)
  case less
  show ?case
  proof (cases pat)
    case Nil
    then show ?thesis by simp
  next
    case (Cons c rest)
    have IH: "\<And>rest' r x. length rest' < length pat
                \<Longrightarrow> glob_match cls (translate_from r rest') x
                    = glob_match cls (r @ translate_from [] rest') x"
      using less by blast
    have tok: "glob_match cls (translate_from (res @ [t]) rest') s
                 = glob_match cls (res @ translate_from [t] rest') s"
      if "length rest' < length pat" for t rest'
    proof -
      have "glob_match cls (translate_from (res @ [t]) rest') s
              = glob_match cls (res @ [t] @ translate_from [] rest') s"
        using IH [OF that, of "res @ [t]" s] by simp
      also have "\<dots> = glob_match cls (res @ translate_from [t] rest') s"
        by (rule glob_match_prefix_cong) (simp add: IH [OF that, of "[t]"])
      finally show ?thesis .
    qed
    have r: "length rest < length pat" using Cons by simp
    show ?thesis
    proof (cases "c = CHR ''*''")
      case True
      have rhs: "translate_from [] pat = translate_from [STAR] rest"
        using Cons True by simp
      show ?thesis
      proof (cases "res \<noteq> [] \<and> last res = STAR")
        case False
        then have "translate_from res pat = translate_from (res @ [STAR]) rest"
          using Cons True by auto
        then show ?thesis using tok [OF r, of STAR] rhs by simp
      next
        case star: True
        then obtain r0 where r0: "res = r0 @ [STAR]"
          by (metis append_butlast_last_id)
        have "translate_from res pat = translate_from res rest"
          using Cons True star by simp
        then have "glob_match cls (translate_from res pat) s
                     = glob_match cls (r0 @ [STAR] @ translate_from [] rest) s"
          using IH [OF r, of res s] r0 by simp
        also have "\<dots> = glob_match cls (r0 @ [STAR] @ [STAR] @ translate_from [] rest) s"
          by (rule glob_match_star_star [symmetric])
        also have "\<dots> = glob_match cls (res @ [STAR] @ translate_from [] rest) s"
          using r0 by simp
        also have "\<dots> = glob_match cls (res @ translate_from [STAR] rest) s"
          by (rule glob_match_prefix_cong) (simp add: IH [OF r, of "[STAR]"])
        finally show ?thesis using rhs by simp
      qed
    next
      case notstar: False
      show ?thesis
      proof (cases "c = CHR ''?''")
        case True
        then show ?thesis using Cons tok [OF r, of ANY] by simp
      next
        case notany: False
        show ?thesis
        proof (cases "c = CHR ''[''")
          case False
          then show ?thesis using Cons notstar notany tok [OF r, of "LIT c"] by simp
        next
          case True
          show ?thesis
          proof (cases "bracket_body rest")
            case None
            then show ?thesis using Cons True tok [OF r, of "LIT c"] by simp
          next
            case (Some sr)
            obtain stuff rest' where sr: "sr = (stuff, rest')" by (cases sr)
            have "length rest' < length pat"
              using bracket_body_shorter Some sr Cons by fastforce
            then show ?thesis using Cons True Some sr tok [of rest' "CLASS stuff"] by simp
          qed
        qed
      qed
    qed
  qed
qed

lemma translate_append_plain:
  "CHR ''['' \<notin> set pre
     \<Longrightarrow> translate_from res (pre @ rest) = translate_from (translate_from res pre) rest"
  by (induction pre arbitrary: res) auto

lemma fnmatch_star:
  assumes "CHR ''['' \<notin> set pre"
  shows "fnmatch w name (pre @ ''*'' @ post)
           = (\<exists>a mid b. name = a @ mid @ b \<and> fnmatch w a pre \<and> fnmatch w b post)"
proof -
  let ?cls = "bracket_class w"
  let ?R = "translate_from [] pre"
  let ?X = "translate_from [] post"
  let ?R' = "if ?R \<noteq> [] \<and> last ?R = STAR then ?R else ?R @ [STAR]"
  have "translate_from [] (pre @ ''*'' @ post) = translate_from ?R' post"
    using translate_append_plain [OF assms, of "[]" "''*'' @ post"] by simp
  then have "fnmatch w name (pre @ ''*'' @ post) = glob_match ?cls (?R' @ ?X) name"
    by (simp add: fnmatch_def translate_sem [of ?cls ?R' post])
  also have "\<dots> = glob_match ?cls (?R @ [STAR] @ ?X) name"
  proof (cases "?R \<noteq> [] \<and> last ?R = STAR")
    case False
    then show ?thesis by auto
  next
    case True
    then obtain r0 where r0: "?R = r0 @ [STAR]"
      by (metis append_butlast_last_id)
    show ?thesis
      using True r0 glob_match_star_star [of ?cls r0 ?X name] by simp
  qed
  also have "\<dots> = (\<exists>a r. name = a @ r \<and> glob_match ?cls ?R a
                        \<and> (\<exists>mid b. r = mid @ b \<and> glob_match ?cls ?X b))"
    by (simp add: glob_match_append [of ?cls ?R] glob_match_star)
  also have "\<dots> = (\<exists>a mid b. name = a @ mid @ b \<and> fnmatch w a pre \<and> fnmatch w b post)"
    unfolding fnmatch_def by blast
  finally show ?thesis .
qed

lemma fnmatch_literal:
  assumes "literal p"
  shows "fnmatch w name p = (name = p)"
proof -
  have "translate_from [] p = map LIT p"
    using translate_literal [OF assms, of "[]" "[]"] by simp
  then show ?thesis
    using glob_match_literals [of "bracket_class w" p "[]" name] by (auto simp: fnmatch_def)
qed

text \<open>
  Claim C3, as amended. A member is selected exactly when its name matches, by
  \<open>fnmatch\<close>, some pattern joined to the base path by \<open>os.path.join\<close>. When the
  archive is read and every selected member can be extracted, the archive returned
  holds exactly the selected members, in the order of the archive, each with the content
  \<open>extractfile\<close> gives; when extracting a selected member raises (a link whose target
  is not in the archive), the first such error leaves the function. Matching compares
  characters as they are (a pattern without special characters matches its own text
  only, so case matters), and a star stands for any run of characters, slashes included:
  a name matches \<open>pre*post\<close>, with no bracket in \<open>pre\<close>, exactly when it is a text that
  matches \<open>pre\<close>, then any text, then a text that matches \<open>post\<close>.
\<close>

theorem members_selected_by_fnmatch:
  "selected w base artifacts m
     = (\<exists>artifact \<in> set artifacts. fnmatch w (member_name m) (path_join base artifact))
   \<and> ((dist_artifacts d = Some artifacts \<and> artifacts \<noteq> []
        \<and> (case dist_base_path d of None \<Rightarrow> [] | Some b \<Rightarrow> b) = base
        \<and> fails w tr (GetArchive container (path_join SRC_ROOT base)) = None
        \<and> foldl (@) [] (archive_of w (tr @ [GetArchive container (path_join SRC_ROOT base)]))
            = in_obj
        \<and> tar_members w in_obj = Inr ms
        \<and> (\<forall>x \<in> set ms. selected w base artifacts x
              \<longrightarrow> (\<exists>data. extractfile w in_obj x = Inr data)))
      \<longrightarrow> retrieve_archive_base64 w container d tr
            = (Inr (Some (b64encode w (tar_bytes w
                 (map (\<lambda>x. (x, case extractfile w in_obj x of Inl e \<Rightarrow> None | Inr data \<Rightarrow> data))
                    (filter (selected w base artifacts) ms))))),
               tr @ [GetArchive container (path_join SRC_ROOT base)]))
   \<and> ((dist_artifacts d = Some artifacts \<and> artifacts \<noteq> []
        \<and> (case dist_base_path d of None \<Rightarrow> [] | Some b \<Rightarrow> b) = base
        \<and> fails w tr (GetArchive container (path_join SRC_ROOT base)) = None
        \<and> foldl (@) [] (archive_of w (tr @ [GetArchive container (path_join SRC_ROOT base)]))
            = in_obj
        \<and> tar_members w in_obj = Inr (earlier @ link # later)
        \<and> selected w base artifacts link
        \<and> extractfile w in_obj link = Inl err
        \<and> (\<forall>x \<in> set earlier. selected w base artifacts x
              \<longrightarrow> (\<exists>data. extractfile w in_obj x = Inr data)))
      \<longrightarrow> retrieve_archive_base64 w container d tr
            = (Inl err, tr @ [GetArchive container (path_join SRC_ROOT base)]))
   \<and> (CHR ''['' \<notin> set pre
      \<longrightarrow> fnmatch w name (pre @ ''*'' @ post)
          = (\<exists>a mid b. name = a @ mid @ b \<and> fnmatch w a pre \<and> fnmatch w b post))
   \<and> (literal p \<longrightarrow> fnmatch w name p = (name = p))"
proof (intro conjI impI)
  show "selected w base artifacts m
     = (\<exists>artifact \<in> set artifacts. fnmatch w (member_name m) (path_join base artifact))"
    by (simp add: selected_def list_ex_iff)
next
  assume a: "dist_artifacts d = Some artifacts \<and> artifacts \<noteq> []
        \<and> (case dist_base_path d of None \<Rightarrow> [] | Some b \<Rightarrow> b) = base
        \<and> fails w tr (GetArchive container (path_join SRC_ROOT base)) = None
        \<and> foldl (@) [] (archive_of w (tr @ [GetArchive container (path_join SRC_ROOT base)]))
            = in_obj
        \<and> tar_members w in_obj = Inr ms
        \<and> (\<forall>x \<in> set ms. selected w base artifacts x
              \<longrightarrow> (\<exists>data. extractfile w in_obj x = Inr data))"
  then have "\<forall>x \<in> set ms. selected w base artifacts x
              \<longrightarrow> (\<exists>data. extractfile w in_obj x = Inr data)"
    by (elim conjE)
  then have f: "extract_members w in_obj base artifacts ms
         = Inr (map (\<lambda>x. (x, case extractfile w in_obj x of Inl e \<Rightarrow> None | Inr data \<Rightarrow> data))
                  (filter (selected w base artifacts) ms))"
    by (rule extract_members_ok)
  from a have "retrieve_archive_base64 w container d tr
           = ((case extract_members w in_obj base artifacts ms of
                 Inl e \<Rightarrow> Inl e
               | Inr members \<Rightarrow> Inr (Some (b64encode w (tar_bytes w members)))),
              tr @ [GetArchive container (path_join SRC_ROOT base)])"
    by (elim conjE) (rule retrieve_some)
  then show "retrieve_archive_base64 w container d tr
            = (Inr (Some (b64encode w (tar_bytes w
                 (map (\<lambda>x. (x, case extractfile w in_obj x of Inl e \<Rightarrow> None | Inr data \<Rightarrow> data))
                    (filter (selected w base artifacts) ms))))),
               tr @ [GetArchive container (path_join SRC_ROOT base)])"
    by (simp only: f sum.case)
next
  assume a: "dist_artifacts d = Some artifacts \<and> artifacts \<noteq> []
        \<and> (case dist_base_path d of None \<Rightarrow> [] | Some b \<Rightarrow> b) = base
        \<and> fails w tr (GetArchive container (path_join SRC_ROOT base)) = None
        \<and> foldl (@) [] (archive_of w (tr @ [GetArchive container (path_join SRC_ROOT base)]))
            = in_obj
        \<and> tar_members w in_obj = Inr (earlier @ link # later)
        \<and> selected w base artifacts link
        \<and> extractfile w in_obj link = Inl err
        \<and> (\<forall>x \<in> set earlier. selected w base artifacts x
              \<longrightarrow> (\<exists>data. extractfile w in_obj x = Inr data))"
  then have f: "extract_members w in_obj base artifacts (earlier @ link # later) = Inl err"
    by (elim conjE) (rule extract_members_raise)
  from a have "retrieve_archive_base64 w container d tr
           = ((case extract_members w in_obj base artifacts (earlier @ link # later) of
                 Inl e \<Rightarrow> Inl e
               | Inr members \<Rightarrow> Inr (Some (b64encode w (tar_bytes w members)))),
              tr @ [GetArchive container (path_join SRC_ROOT base)])"
    by (elim conjE) (rule retrieve_some)
  then show "retrieve_archive_base64 w container d tr
            = (Inl err, tr @ [GetArchive container (path_join SRC_ROOT base)])"
    by (simp only: f sum.case)
next
  assume "CHR ''['' \<notin> set pre"
  then show "fnmatch w name (pre @ ''*'' @ post)
          = (\<exists>a mid b. name = a @ mid @ b \<and> fnmatch w a pre \<and> fnmatch w b post)"
    by (rule fnmatch_star)
next
  assume "literal p"
  then show "fnmatch w name p = (name = p)"
    by (rule fnmatch_literal)
qed

lemma dangling_members:
  "tar_members dangling_world ''build/a.txt;build/b.log;build/sub/c.txt''
     = Inr ([\<lparr>member_name = ''build/a.txt'', member_header = []\<rparr>,
             \<lparr>member_name = ''build/b.log'', member_header = []\<rparr>]
            @ \<lparr>member_name = ''build/sub/c.txt'', member_header = []\<rparr> # [])"
  by (simp add: dangling_world_def quiet_world_def)

lemma quiet_members_text:
  "tar_members quiet_world ''build/a.txt;build/b.log;build/sub/c.txt'' = Inr three_members"
  by (simp add: quiet_world_def three_members_def)

lemma join_build_txt: "path_join ''build'' ''*.txt'' = ''build/*.txt''"
  by code_simp

lemma translate_build_txt:
  "translate_from [] ''build/*.txt'' = map LIT ''build/'' @ [STAR] @ map LIT ''.txt''"
  by simp

lemma selected_link:
  "selected dangling_world ''build'' [''*.txt'']
     \<lparr>member_name = ''build/sub/c.txt'', member_header = []\<rparr>"
  by (simp add: selected_def fnmatch_def join_build_txt translate_build_txt)

text \<open>
  The theorem at the pattern \<open>*.txt\<close> under the base \<open>build\<close>: in the quiet world the
  archive is returned, in the world with the dangling link the error of \<open>extractfile\<close>
  is; the star reaches into \<open>sub\<close>, and a name that differs in case does not match.
\<close>

theorem members_selected_by_fnmatch_witness:
  "retrieve_archive_base64 quiet_world ''c1''
      \<lparr>dist_base_path = Some ''build'', dist_artifacts = Some [''*.txt'']\<rparr> []
     = (Inr (Some (b64encode quiet_world (tar_bytes quiet_world
          (map (\<lambda>x. (x, case extractfile quiet_world ''build/a.txt;build/b.log;build/sub/c.txt'' x of
                          Inl e \<Rightarrow> None | Inr data \<Rightarrow> data))
             (filter (selected quiet_world ''build'' [''*.txt'']) three_members))))),
        [] @ [GetArchive ''c1'' (path_join SRC_ROOT ''build'')])
   \<and> retrieve_archive_base64 dangling_world ''c1''
      \<lparr>dist_base_path = Some ''build'', dist_artifacts = Some [''*.txt'']\<rparr> []
     = (Inl KeyError, [] @ [GetArchive ''c1'' (path_join SRC_ROOT ''build'')])
   \<and> fnmatch quiet_world ''build/sub/c.txt'' (''build/'' @ ''*'' @ ''.txt'')
       = (\<exists>a mid b. ''build/sub/c.txt'' = a @ mid @ b
            \<and> fnmatch quiet_world a ''build/'' \<and> fnmatch quiet_world b ''.txt'')
   \<and> \<not> fnmatch quiet_world ''build/A.txt'' ''build/a.txt''"
proof -
  have 1: "retrieve_archive_base64 quiet_world ''c1''
      \<lparr>dist_base_path = Some ''build'', dist_artifacts = Some [''*.txt'']\<rparr> []
     = (Inr (Some (b64encode quiet_world (tar_bytes quiet_world
          (map (\<lambda>x. (x, case extractfile quiet_world ''build/a.txt;build/b.log;build/sub/c.txt'' x of
                          Inl e \<Rightarrow> None | Inr data \<Rightarrow> data))
             (filter (selected quiet_world ''build'' [''*.txt'']) three_members))))),
        [] @ [GetArchive ''c1'' (path_join SRC_ROOT ''build'')])"
  proof (rule members_selected_by_fnmatch [THEN conjunct2, THEN conjunct1, THEN mp],
         intro conjI)
    show "dist_artifacts \<lparr>dist_base_path = Some ''build'', dist_artifacts = Some [''*.txt'']\<rparr>
            = Some [''*.txt'']" by simp
    show "[''*.txt''] \<noteq> []" by simp
    show "(case dist_base_path \<lparr>dist_base_path = Some ''build'',
                                dist_artifacts = Some [''*.txt'']\<rparr> of
             None \<Rightarrow> [] | Some b \<Rightarrow> b) = ''build''" by simp
    show "fails quiet_world [] (GetArchive ''c1'' (path_join SRC_ROOT ''build'')) = None"
      by (simp add: quiet_world_def)
    show "foldl (@) [] (archive_of quiet_world
            ([] @ [GetArchive ''c1'' (path_join SRC_ROOT ''build'')]))
          = ''build/a.txt;build/b.log;build/sub/c.txt''"
      by (simp add: quiet_world_def)
    show "tar_members quiet_world ''build/a.txt;build/b.log;build/sub/c.txt'' = Inr three_members"
      by (rule quiet_members_text)
    show "\<forall>x \<in> set three_members. selected quiet_world ''build'' [''*.txt''] x
            \<longrightarrow> (\<exists>data. extractfile quiet_world ''build/a.txt;build/b.log;build/sub/c.txt'' x
                           = Inr data)"
      by (simp add: quiet_world_def)
  qed
  have 2: "retrieve_archive_base64 dangling_world ''c1''
      \<lparr>dist_base_path = Some ''build'', dist_artifacts = Some [''*.txt'']\<rparr> []
     = (Inl KeyError, [] @ [GetArchive ''c1'' (path_join SRC_ROOT ''build'')])"
  proof (rule members_selected_by_fnmatch [THEN conjunct2, THEN conjunct2, THEN conjunct1,
           THEN mp], intro conjI)
    show "dist_artifacts \<lparr>dist_base_path = Some ''build'', dist_artifacts = Some [''*.txt'']\<rparr>
            = Some [''*.txt'']" by simp
    show "[''*.txt''] \<noteq> []" by simp
    show "(case dist_base_path \<lparr>dist_base_path = Some ''build'',
                                dist_artifacts = Some [''*.txt'']\<rparr> of
             None \<Rightarrow> [] | Some b \<Rightarrow> b) = ''build''" by simp
    show "fails dangling_world [] (GetArchive ''c1'' (path_join SRC_ROOT ''build'')) = None"
      by (simp add: dangling_world_def quiet_world_def)
    show "foldl (@) [] (archive_of dangling_world
            ([] @ [GetArchive ''c1'' (path_join SRC_ROOT ''build'')]))
          = ''build/a.txt;build/b.log;build/sub/c.txt''"
      by (simp add: dangling_world_def quiet_world_def)
    show "tar_members dangling_world ''build/a.txt;build/b.log;build/sub/c.txt''
     = Inr ([\<lparr>member_name = ''build/a.txt'', member_header = []\<rparr>,
             \<lparr>member_name = ''build/b.log'', member_header = []\<rparr>]
            @ \<lparr>member_name = ''build/sub/c.txt'', member_header = []\<rparr> # [])"
      by (rule dangling_members)
    show "selected dangling_world ''build'' [''*.txt'']
            \<lparr>member_name = ''build/sub/c.txt'', member_header = []\<rparr>"
      by (rule selected_link)
    show "extractfile dangling_world ''build/a.txt;build/b.log;build/sub/c.txt''
            \<lparr>member_name = ''build/sub/c.txt'', member_header = []\<rparr> = Inl KeyError"
      by (simp add: dangling_world_def)
    show "\<forall>x \<in> set [\<lparr>member_name = ''build/a.txt'', member_header = []\<rparr>,
                     \<lparr>member_name = ''build/b.log'', member_header = []\<rparr>].
            selected dangling_world ''build'' [''*.txt''] x
            \<longrightarrow> (\<exists>data. extractfile dangling_world ''build/a.txt;build/b.log;build/sub/c.txt'' x
                           = Inr data)"
      by (simp add: dangling_world_def)
  qed
  have 3: "fnmatch quiet_world ''build/sub/c.txt'' (''build/'' @ ''*'' @ ''.txt'')
       = (\<exists>a mid b. ''build/sub/c.txt'' = a @ mid @ b
            \<and> fnmatch quiet_world a ''build/'' \<and> fnmatch quiet_world b ''.txt'')"
    by (rule members_selected_by_fnmatch [THEN conjunct2, THEN conjunct2, THEN conjunct2,
          THEN conjunct1, THEN mp]) simp
  have "fnmatch quiet_world ''build/A.txt'' ''build/a.txt'' = (''build/A.txt'' = ''build/a.txt'')"
    by (rule members_selected_by_fnmatch [THEN conjunct2, THEN conjunct2, THEN conjunct2,
          THEN conjunct2, THEN mp]) (simp add: literal_def)
  then have 4: "\<not> fnmatch quiet_world ''build/A.txt'' ''build/a.txt''"
    by simp
  show ?thesis
    by (intro conjI 1 2 3 4)
qed

text \<open>
  Claim C3 as stated fails: under the base \<open>build\<close> the pattern \<open>*.txt\<close> selects the
  member \<open>build/sub/c.txt\<close>, the star standing for \<open>sub/c\<close>, which crosses a slash.
\<close>

theorem star_crosses_slash_counterexample:
  "selected quiet_world ''build'' [''*.txt'']
     \<lparr>member_name = ''build/sub/c.txt'', member_header = []\<rparr>
   \<and> path_join ''build'' ''*.txt'' = ''build/'' @ ''*'' @ ''.txt''
   \<and> ''build/sub/c.txt'' = ''build/'' @ ''sub/c'' @ ''.txt''
   \<and> CHR ''/'' \<in> set ''sub/c''"
  by (simp add: selected_def fnmatch_def join_build_txt translate_build_txt)

section \<open>Parsing a reconstructed text\<close>

lemma split_from_char_pieces: "\<forall>piece \<in> set (split_from [x] s). x \<notin> set piece"
  by (induction s) (auto split: list.splits)

lemma match_line_parts:
  assumes "match_line line = Some (key, val)"
  shows "CHR '']'' \<notin> set key \<and> set key \<subseteq> set line \<and> NL \<notin> set val"
proof -
  obtain c rest where l: "line = c # rest" using assms by (cases line) (simp_all add: match_line_def)
  have k: "key = takeWhile (\<lambda>x. x \<noteq> CHR '']'') rest"
    using assms l by (auto simp: match_line_def split: if_splits list.splits)
  obtain t where v: "val = takeWhile (\<lambda>x. x \<noteq> NL) t"
    using assms l by (auto simp: match_line_def split: if_splits list.splits)
  have "CHR '']'' \<notin> set key" using k by (auto dest: set_takeWhileD)
  moreover have "set key \<subseteq> set line" using k l by (auto dest: set_takeWhileD)
  moreover have "NL \<notin> set val" using v by (auto dest: set_takeWhileD)
  ultimately show ?thesis by blast
qed

lemma dict_append_keys: "fst ` set (dict_append d k v) = insert k (fst ` set d)"
  by (induction d k v rule: dict_append.induct) auto

lemma well_formed_dict_append:
  assumes "well_formed d" and "CHR '']'' \<notin> set k" and "NL \<notin> set k" and "NL \<notin> set v"
  shows "well_formed (dict_append d k v)"
  using assms
proof (induction d k v rule: dict_append.induct)
  case (1 k v)
  then show ?case by (simp add: well_formed_def)
next
  case (2 k' vs d k v)
  show ?case
  proof (cases "k' = k")
    case True
    then show ?thesis using "2.prems" by (auto simp: well_formed_def)
  next
    case False
    have wd: "well_formed d" using "2.prems"(1) by (auto simp: well_formed_def)
    have ih: "well_formed (dict_append d k v)"
      using "2.IH" [OF False wd "2.prems"(2,3,4)] .
    have "k' \<notin> fst ` set (dict_append d k v)"
      using "2.prems"(1) False by (auto simp: dict_append_keys well_formed_def)
    then show ?thesis
      using False ih "2.prems"(1) by (auto simp: well_formed_def)
  qed
qed

lemma well_formed_foldl_add_line:
  assumes "\<forall>line \<in> set lines. NL \<notin> set line" and "well_formed d"
  shows "well_formed (foldl add_line d lines)"
  using assms
proof (induction lines arbitrary: d)
  case Nil
  then show ?case by simp
next
  case (Cons line lines)
  have "well_formed (add_line d line)"
  proof (cases "match_line line")
    case None
    then show ?thesis using Cons.prems(2) by (simp add: add_line_def)
  next
    case (Some kv)
    obtain k v where kv: "kv = (k, v)" by (cases kv)
    have "CHR '']'' \<notin> set k \<and> set k \<subseteq> set line \<and> NL \<notin> set v"
      using match_line_parts Some kv by blast
    moreover have "NL \<notin> set line" using Cons.prems(1) by simp
    ultimately show ?thesis
      using Some kv Cons.prems(2) by (auto simp: add_line_def intro!: well_formed_dict_append)
  qed
  then show ?case using Cons.IH Cons.prems(1) by simp
qed

lemma parse_output_eq:
  "parse_output s =
     Inr (filter any_key (map (\<lambda>text. foldl add_line [] (split_from [NL] text))
            (split_from DIVIDER (str_replace [CR, NL] [NL] s))))"
  by (simp add: parse_output_def blocks_of_eq parse_blocks_eq)

lemma parse_output_records:
  assumes "parse_output s = Inr records" and "command \<in> set records"
  shows "well_formed command \<and> any_key command"
proof -
  obtain block where c: "command = foldl add_line [] (split_from [NL] block)" "any_key command"
    using assms by (auto simp: parse_output_eq)
  have "well_formed []" by (simp add: well_formed_def)
  then show ?thesis
    using c well_formed_foldl_add_line [OF split_from_char_pieces] by simp
qed

lemma split_from_line:
  "NL \<notin> set l \<Longrightarrow> split_from [NL] (l @ NL # rest) = l # split_from [NL] rest"
  by (induction l) auto

lemma split_from_lines_text:
  "\<forall>l \<in> set ls. NL \<notin> set l \<Longrightarrow> split_from [NL] (lines_text ls) = ls @ [[]]"
proof (induction ls)
  case Nil
  show ?case by (simp add: lines_text_def)
next
  case (Cons l ls)
  have "lines_text (l # ls) = l @ NL # lines_text ls" by (simp add: lines_text_def)
  then show ?case using Cons split_from_line by simp
qed

lemma match_tagged_line:
  assumes "CHR '']'' \<notin> set k" and "NL \<notin> set v"
  shows "match_line (tagged_line k v) = Some (k, v)"
proof -
  have d: "dropWhile (\<lambda>x. x \<noteq> CHR '']'') (k @ CHR '']'' # CHR '' '' # v) = CHR '']'' # CHR '' '' # v"
    using assms(1) by (auto simp: dropWhile_append3)
  have t: "takeWhile (\<lambda>x. x \<noteq> CHR '']'') (k @ CHR '']'' # CHR '' '' # v) = k"
    using assms(1) by (auto simp: takeWhile_tail)
  have dv: "dropWhile (\<lambda>x. x \<noteq> NL) v = []" using assms(2) by auto
  have tv: "takeWhile (\<lambda>x. x \<noteq> NL) v = v" using assms(2) by auto
  show ?thesis
    using assms(2) by (simp add: match_line_def tagged_line_def d t dv tv)
qed

lemma dict_append_new:
  "k \<notin> fst ` set d \<Longrightarrow> dict_append d k v = d @ [(k, [v])]"
  by (induction d k v rule: dict_append.induct) auto

lemma dict_append_last:
  "k \<notin> fst ` set d \<Longrightarrow> dict_append (d @ [(k, us)]) k v = d @ [(k, us @ [v])]"
  by (induction d) auto

lemma foldl_add_same_key:
  assumes "k \<notin> fst ` set d" and "CHR '']'' \<notin> set k" and "\<forall>v \<in> set vs. NL \<notin> set v"
  shows "foldl add_line (d @ [(k, us)]) (map (tagged_line k) vs) = d @ [(k, us @ vs)]"
  using assms(3)
proof (induction vs arbitrary: us)
  case Nil
  show ?case by simp
next
  case (Cons v vs)
  have "add_line (d @ [(k, us)]) (tagged_line k v) = d @ [(k, us @ [v])]"
    using Cons.prems assms(1,2) by (simp add: add_line_def match_tagged_line dict_append_last)
  then show ?case using Cons.IH [of "us @ [v]"] Cons.prems by simp
qed

lemma foldl_add_key:
  assumes "k \<notin> fst ` set d" and "CHR '']'' \<notin> set k" and "\<forall>v \<in> set vs. NL \<notin> set v"
    and "vs \<noteq> []"
  shows "foldl add_line d (map (tagged_line k) vs) = d @ [(k, vs)]"
proof -
  obtain v vs' where vs: "vs = v # vs'" using assms(4) by (cases vs) auto
  have "add_line d (tagged_line k v) = d @ [(k, [v])]"
    using assms(1,2,3) vs by (simp add: add_line_def match_tagged_line dict_append_new)
  then show ?thesis
    using foldl_add_same_key [OF assms(1,2), of vs' "[v]"] assms(3) vs by simp
qed

lemma foldl_add_record_lines:
  assumes "well_formed r" and "fst ` set d \<inter> fst ` set r = {}"
  shows "foldl add_line d (record_lines r) = d @ r"
  using assms
proof (induction r arbitrary: d)
  case Nil
  show ?case by (simp add: record_lines_def)
next
  case (Cons kv r)
  obtain k vs where kv: "kv = (k, vs)" by (cases kv)
  have k: "k \<notin> fst ` set d" using Cons.prems(2) kv by auto
  have p: "CHR '']'' \<notin> set k" "\<forall>v \<in> set vs. NL \<notin> set v" "vs \<noteq> []"
    using Cons.prems(1) kv by (auto simp: well_formed_def)
  have wr: "well_formed r" using Cons.prems(1) by (auto simp: well_formed_def)
  have "k \<notin> fst ` set r" using Cons.prems(1) kv by (auto simp: well_formed_def)
  then have dj: "fst ` set (d @ [(k, vs)]) \<inter> fst ` set r = {}"
    using Cons.prems(2) by auto
  have "foldl add_line d (record_lines (kv # r))
          = foldl add_line (foldl add_line d (map (tagged_line k) vs)) (record_lines r)"
    using kv by (simp add: record_lines_def)
  also have "\<dots> = foldl add_line (d @ [(k, vs)]) (record_lines r)"
    using foldl_add_key [OF k p] by simp
  also have "\<dots> = (d @ [(k, vs)]) @ r"
    using Cons.IH [OF wr dj] .
  finally show ?case using kv by simp
qed

lemma record_lines_no_NL:
  assumes "well_formed r"
  shows "\<forall>l \<in> set (record_lines r). NL \<notin> set l"
  using assms by (auto simp: record_lines_def well_formed_def tagged_line_def)

lemma match_line_empty: "match_line [] = None"
  by (simp add: match_line_def)

lemma block_of_record:
  assumes "well_formed r"
  shows "foldl add_line [] (split_from [NL] (record_text r)) = r"
proof -
  have "split_from [NL] (record_text r) = record_lines r @ [[]]"
    unfolding record_text_def by (rule split_from_lines_text [OF record_lines_no_NL [OF assms]])
  then show ?thesis
    using foldl_add_record_lines [OF assms, of "[]"]
    by (simp add: add_line_def match_line_empty)
qed

lemma not_prefix_DIVIDER_line:
  assumes "NL \<notin> set l" and "\<not> suffix ''---'' l"
  shows "\<not> prefix DIVIDER (l @ NL # t)"
proof
  assume p: "prefix DIVIDER (l @ NL # t)"
  show False
  proof (cases l)
    case Nil
    with p show False by (simp add: DIVIDER_def)
  next
    case l1: (Cons c1 l1)
    show False
    proof (cases l1)
      case Nil
      with p l1 show False by (simp add: DIVIDER_def)
    next
      case l2: (Cons c2 l2)
      show False
      proof (cases l2)
        case Nil
        with p l1 l2 show False by (simp add: DIVIDER_def)
      next
        case l3: (Cons c3 l3)
        show False
        proof (cases l3)
          case Nil
          with p l1 l2 l3 have "l = ''---''" by (auto simp: DIVIDER_def)
          with assms(2) show False by simp
        next
          case (Cons c4 l4)
          with p l1 l2 l3 have "c4 = NL" by (auto simp: DIVIDER_def)
          with assms(1) l1 l2 l3 Cons show False by simp
        qed
      qed
    qed
  qed
qed

lemma not_prefix_CRLF_line:
  assumes "NL \<notin> set l" and "\<not> suffix [CR] l"
  shows "\<not> prefix [CR, NL] (l @ NL # t)"
proof
  assume p: "prefix [CR, NL] (l @ NL # t)"
  show False
  proof (cases l)
    case Nil
    with p show False by simp
  next
    case l1: (Cons c1 l1)
    show False
    proof (cases l1)
      case Nil
      with p l1 have "l = [CR]" by simp
      with assms(2) show False by simp
    next
      case (Cons c2 l2)
      with p l1 have "c2 = NL" by simp
      with assms(1) l1 Cons show False by simp
    qed
  qed
qed

lemma no_DIVIDER_line:
  assumes "NL \<notin> set l" and "\<not> suffix ''---'' l" and "\<not> occurs DIVIDER t"
  shows "\<not> occurs DIVIDER (l @ NL # t)"
  using assms(1,2)
proof (induction l)
  case Nil
  then show ?case using assms(3) not_prefix_DIVIDER_line [of "[]" t] by simp
next
  case (Cons c l)
  have "\<not> suffix ''---'' l" using Cons.prems(2) by (meson suffix_ConsI)
  then have "\<not> occurs DIVIDER (l @ NL # t)" using Cons.IH Cons.prems(1) by simp
  moreover have "\<not> prefix DIVIDER ((c # l) @ NL # t)"
    using not_prefix_DIVIDER_line [OF Cons.prems] .
  ultimately show ?case by simp
qed

lemma no_CRLF_line:
  assumes "NL \<notin> set l" and "\<not> suffix [CR] l" and "\<not> occurs [CR, NL] t"
  shows "\<not> occurs [CR, NL] (l @ NL # t)"
  using assms(1,2)
proof (induction l)
  case Nil
  then show ?case using assms(3) by simp
next
  case (Cons c l)
  have "\<not> suffix [CR] l" using Cons.prems(2) by (meson suffix_ConsI)
  then have "\<not> occurs [CR, NL] (l @ NL # t)" using Cons.IH Cons.prems(1) by simp
  moreover have "\<not> prefix [CR, NL] ((c # l) @ NL # t)"
    using not_prefix_CRLF_line [OF Cons.prems] .
  ultimately show ?case by simp
qed

lemma no_DIVIDER_lines:
  assumes "\<forall>l \<in> set ls. NL \<notin> set l \<and> \<not> suffix ''---'' l" and "\<not> occurs DIVIDER t"
  shows "\<not> occurs DIVIDER (lines_text ls @ t)"
  using assms(1)
proof (induction ls)
  case Nil
  show ?case using assms(2) by (simp add: lines_text_def)
next
  case (Cons l ls)
  have "lines_text (l # ls) @ t = l @ NL # (lines_text ls @ t)" by (simp add: lines_text_def)
  then show ?case using Cons no_DIVIDER_line by simp
qed

lemma no_CRLF_lines:
  assumes "\<forall>l \<in> set ls. NL \<notin> set l \<and> \<not> suffix [CR] l" and "\<not> occurs [CR, NL] t"
  shows "\<not> occurs [CR, NL] (lines_text ls @ t)"
  using assms(1)
proof (induction ls)
  case Nil
  show ?case using assms(2) by (simp add: lines_text_def)
next
  case (Cons l ls)
  have "lines_text (l # ls) @ t = l @ NL # (lines_text ls @ t)" by (simp add: lines_text_def)
  then show ?case using Cons no_CRLF_line by simp
qed

lemma suffix_dashes_tagged_line:
  assumes "suffix ''---'' (tagged_line k v)"
  shows "suffix ''---'' v"
proof -
  have p: "prefix ''---'' (rev v @ CHR '' '' # CHR '']'' # rev k @ ''['')"
    using assms by (simp add: suffix_to_prefix tagged_line_def)
  have "prefix ''---'' (rev v)"
  proof (cases "rev v")
    case Nil
    with p show ?thesis by simp
  next
    case r1: (Cons c1 r1)
    show ?thesis
    proof (cases r1)
      case Nil
      with p r1 show ?thesis by simp
    next
      case r2: (Cons c2 r2)
      show ?thesis
      proof (cases r2)
        case Nil
        with p r1 r2 show ?thesis by simp
      next
        case (Cons c3 r3)
        with p r1 r2 show ?thesis by auto
      qed
    qed
  qed
  then show ?thesis by (simp add: suffix_to_prefix)
qed

lemma suffix_CR_tagged_line:
  assumes "suffix [CR] (tagged_line k v)"
  shows "suffix [CR] v"
proof -
  have p: "prefix [CR] (rev v @ CHR '' '' # CHR '']'' # rev k @ ''['')"
    using assms by (simp add: suffix_to_prefix tagged_line_def)
  have "prefix [CR] (rev v)"
  proof (cases "rev v")
    case Nil
    with p show ?thesis by simp
  next
    case (Cons c1 r1)
    with p show ?thesis by simp
  qed
  then show ?thesis by (simp add: suffix_to_prefix)
qed

lemma replace_all_no_occurrence:
  "old \<noteq> [] \<Longrightarrow> \<not> occurs old s \<Longrightarrow> replace_all old new s = s"
  by (induction s) auto

lemma record_lines_plain:
  assumes "well_formed r"
    and "\<forall>(key, vals) \<in> set r. \<forall>v \<in> set vals. \<not> suffix ''---'' v \<and> \<not> suffix [CR] v"
  shows "\<forall>l \<in> set (record_lines r). NL \<notin> set l \<and> \<not> suffix ''---'' l \<and> \<not> suffix [CR] l"
proof
  fix l assume "l \<in> set (record_lines r)"
  then obtain k vs v where kv: "(k, vs) \<in> set r" "v \<in> set vs" "l = tagged_line k v"
    by (auto simp: record_lines_def)
  have "NL \<notin> set l" using record_lines_no_NL [OF assms(1)] \<open>l \<in> set (record_lines r)\<close> by blast
  moreover have "\<not> suffix ''---'' v \<and> \<not> suffix [CR] v" using assms(2) kv(1,2) by blast
  ultimately show "NL \<notin> set l \<and> \<not> suffix ''---'' l \<and> \<not> suffix [CR] l"
    using kv(3) suffix_dashes_tagged_line suffix_CR_tagged_line by blast
qed

lemma no_DIVIDER_record_text:
  assumes "well_formed r"
    and "\<forall>(key, vals) \<in> set r. \<forall>v \<in> set vals. \<not> suffix ''---'' v \<and> \<not> suffix [CR] v"
  shows "\<not> occurs DIVIDER (record_text r)"
proof -
  have "\<not> occurs DIVIDER []" by (simp add: DIVIDER_def)
  then have "\<not> occurs DIVIDER (lines_text (record_lines r) @ [])"
    using no_DIVIDER_lines [of "record_lines r" "[]"] record_lines_plain [OF assms] by blast
  then show ?thesis by (simp add: record_text_def)
qed

lemma no_CRLF_record_text_append:
  assumes "well_formed r"
    and "\<forall>(key, vals) \<in> set r. \<forall>v \<in> set vals. \<not> suffix ''---'' v \<and> \<not> suffix [CR] v"
    and "\<not> occurs [CR, NL] t"
  shows "\<not> occurs [CR, NL] (record_text r @ t)"
  unfolding record_text_def
  using no_CRLF_lines [of "record_lines r" t] record_lines_plain [OF assms(1,2)] assms(3)
  by blast

lemma no_CRLF_DIVIDER_append:
  assumes "\<not> occurs [CR, NL] t"
  shows "\<not> occurs [CR, NL] (DIVIDER @ t)"
  using assms by (simp add: DIVIDER_def)

lemma no_CRLF_reconstruct:
  assumes "\<forall>r \<in> set rs. well_formed r
             \<and> (\<forall>(key, vals) \<in> set r. \<forall>v \<in> set vals. \<not> suffix ''---'' v \<and> \<not> suffix [CR] v)"
  shows "\<not> occurs [CR, NL] (reconstruct rs)"
  using assms
proof (induction rs)
  case Nil
  show ?case by (simp add: reconstruct_def)
next
  case (Cons r rs)
  have r: "well_formed r"
      "\<forall>(key, vals) \<in> set r. \<forall>v \<in> set vals. \<not> suffix ''---'' v \<and> \<not> suffix [CR] v"
    using Cons.prems by simp_all
  show ?case
  proof (cases rs)
    case Nil
    have "\<not> occurs [CR, NL] (record_text r @ [])"
      by (rule no_CRLF_record_text_append [OF r]) simp
    then show ?thesis using Nil by (simp add: reconstruct_def)
  next
    case (Cons r' rs')
    have "\<not> occurs [CR, NL] (reconstruct rs)" using Cons.IH Cons.prems by simp
    then have "\<not> occurs [CR, NL] (record_text r @ DIVIDER @ reconstruct rs)"
      by (intro no_CRLF_record_text_append [OF r] no_CRLF_DIVIDER_append)
    then show ?thesis using Cons by (simp add: reconstruct_def)
  qed
qed

lemma split_reconstruct:
  assumes "\<forall>r \<in> set rs. well_formed r
             \<and> (\<forall>(key, vals) \<in> set r. \<forall>v \<in> set vals. \<not> suffix ''---'' v \<and> \<not> suffix [CR] v)"
    and "rs \<noteq> []"
  shows "split_from DIVIDER (reconstruct rs) = map record_text rs"
  using assms
proof (induction rs)
  case Nil
  then show ?case by simp
next
  case (Cons r rs)
  have n: "\<not> occurs DIVIDER (record_text r)"
    using no_DIVIDER_record_text Cons.prems(1) by simp
  show ?case
  proof (cases rs)
    case Nil
    then show ?thesis
      using n by (simp add: reconstruct_def split_from_no_occurrence DIVIDER_nonempty)
  next
    case (Cons r' rs')
    then have "split_from DIVIDER (reconstruct rs) = map record_text rs"
      using Cons.IH Cons.prems(1) by simp
    moreover have "reconstruct (r # rs) = record_text r @ DIVIDER @ reconstruct rs"
      using Cons by (simp add: reconstruct_def)
    ultimately show ?thesis
      using split_from_DIVIDER_first [OF n] by simp
  qed
qed

lemma parse_reconstruct:
  assumes "\<forall>r \<in> set rs. well_formed r \<and> any_key r
             \<and> (\<forall>(key, vals) \<in> set r. \<forall>v \<in> set vals. \<not> suffix ''---'' v \<and> \<not> suffix [CR] v)"
  shows "parse_output (reconstruct rs) = Inr rs"
proof (cases rs)
  case Nil
  have "reconstruct [] = []" by (simp add: reconstruct_def)
  moreover have "parse_output [] = Inr []" by code_simp
  ultimately show ?thesis using Nil by simp
next
  case (Cons r rs')
  have ok: "\<forall>r \<in> set rs. well_formed r
             \<and> (\<forall>(key, vals) \<in> set r. \<forall>v \<in> set vals. \<not> suffix ''---'' v \<and> \<not> suffix [CR] v)"
    using assms by blast
  have "str_replace [CR, NL] [NL] (reconstruct rs) = reconstruct rs"
    using no_CRLF_reconstruct [OF ok] by (simp add: str_replace_def replace_all_no_occurrence)
  moreover have "split_from DIVIDER (reconstruct rs) = map record_text rs"
    using split_reconstruct [OF ok] Cons by simp
  moreover have "map (\<lambda>text. foldl add_line [] (split_from [NL] text)) (map record_text rs) = rs"
    using assms by (simp add: block_of_record map_idI)
  moreover have "filter any_key rs = rs"
    using assms by simp
  ultimately show ?thesis
    by (simp add: parse_output_eq)
qed

text \<open>
  Claim C6, as amended. For every list of records that the parser produces and in which
  no value ends with three dashes or with a carriage return, parsing the text
  reconstructed from the records gives the same records.
\<close>

theorem reparse_reconstructed:
  assumes "parse_output s = Inr records"
    and "\<forall>command \<in> set records. \<forall>(key, vals) \<in> set command.
           \<forall>v \<in> set vals. \<not> suffix ''---'' v \<and> \<not> suffix [CR] v"
  shows "parse_output (reconstruct records) = Inr records"
proof (rule parse_reconstruct)
  show "\<forall>r \<in> set records. well_formed r \<and> any_key r
             \<and> (\<forall>(key, vals) \<in> set r. \<forall>v \<in> set vals. \<not> suffix ''---'' v \<and> \<not> suffix [CR] v)"
    using parse_output_records [OF assms(1)] assms(2) by blast
qed

text \<open>
  The theorem at a text of two blocks whose first block has the lines of two tags
  interleaved: the reconstructed text groups them by tag and parses to the same records.
\<close>

theorem reparse_reconstructed_witness:
  "parse_output ''[out] hello\<newline>[err] x\<newline>[out] world\<newline>---\<newline>[out] done\<newline>''
     = Inr [[(''out'', [''hello'', ''world'']), (''err'', [''x''])], [(''out'', [''done''])]]
   \<and> reconstruct [[(''out'', [''hello'', ''world'']), (''err'', [''x''])], [(''out'', [''done''])]]
     = ''[out] hello\<newline>[out] world\<newline>[err] x\<newline>---\<newline>[out] done\<newline>''
   \<and> parse_output
       (reconstruct [[(''out'', [''hello'', ''world'']), (''err'', [''x''])], [(''out'', [''done''])]])
     = Inr [[(''out'', [''hello'', ''world'']), (''err'', [''x''])], [(''out'', [''done''])]]"
proof -
  have p: "parse_output ''[out] hello\<newline>[err] x\<newline>[out] world\<newline>---\<newline>[out] done\<newline>''
     = Inr [[(''out'', [''hello'', ''world'']), (''err'', [''x''])], [(''out'', [''done''])]]"
    by code_simp
  have h: "\<forall>command \<in> set [[(''out'', [''hello'', ''world'']), (''err'', [''x''])],
                               [(''out'', [''done''])]].
             \<forall>(key, vals) \<in> set command.
               \<forall>v \<in> set vals. \<not> suffix ''---'' v \<and> \<not> suffix [CR] v"
    by (simp add: suffix_to_prefix)
  have r: "reconstruct [[(''out'', [''hello'', ''world'']), (''err'', [''x''])], [(''out'', [''done''])]]
     = ''[out] hello\<newline>[out] world\<newline>[err] x\<newline>---\<newline>[out] done\<newline>''"
    by code_simp
  show ?thesis
    by (intro conjI p r reparse_reconstructed [OF p h])
qed

text \<open>
  Claim C6 as stated fails. A last line without a line feed can leave a value that ends
  with three dashes; reconstructed, its line ends with the divider text, and parsing
  cuts the dashes off. A value that ends with a carriage return loses it to the
  normalization of line ends.
\<close>

theorem reparse_reconstructed_counterexample:
  "parse_output ''[a] x---'' = Inr [[(''a'', [''x---''])]]
   \<and> reconstruct [[(''a'', [''x---''])]] = ''[a] x---\<newline>''
   \<and> parse_output (reconstruct [[(''a'', [''x---''])]]) = Inr [[(''a'', [''x''])]]
   \<and> parse_output [CHR ''['', CHR ''a'', CHR '']'', CHR '' '', CHR ''x'', CR]
       = Inr [[(''a'', [[CHR ''x'', CR]])]]
   \<and> reconstruct [[(''a'', [[CHR ''x'', CR]])]]
       = [CHR ''['', CHR ''a'', CHR '']'', CHR '' '', CHR ''x'', CR, NL]
   \<and> parse_output (reconstruct [[(''a'', [[CHR ''x'', CR]])]]) = Inr [[(''a'', [''x''])]]"
  by code_simp

end
